theory Spec2Isabelle
  imports Main "HOL-Library.Word"
begin

section \<open>The pipe (kernel/pipe.c part of pipe\_new.c)\<close>

text \<open>
  C's \<open>uint\<close> and \<open>int\<close> are both 32 bits wide. Both are modelled as \<open>32 word\<close>:
  addition and subtraction wrap, \<open><\<close> on words is the unsigned comparison and
  \<open><s\<close> the signed one. A conversion between \<open>int\<close> and \<open>uint\<close> keeps the bits, so
  it is the identity on the word.
\<close>

type_synonym uint = "32 word"
type_synonym cint = "32 word"
type_synonym uint64 = "64 word"
type_synonym byte = "8 word"

definition PIPESIZE :: uint where
  "PIPESIZE = 2048"

text \<open>
  The macro \<open>min(a, b) ((a) < (b) ? (a) : (b))\<close>. At each of its uses one operand is
  \<open>uint\<close>, so the comparison and the result are unsigned.
\<close>

definition min_c :: "uint \<Rightarrow> uint \<Rightarrow> uint" where
  "min_c a b = (if a < b then a else b)"

record pipe =
  data :: "byte list"
  nread :: uint
  nwrite :: uint
  readopen :: int
  writeopen :: int

text \<open>
  What a call of \<open>pipewrite\<close> or \<open>piperead\<close> does with the lock held, up to the
  point where it gives the lock up: it returns a value, or it sleeps on a channel.
  A writer that sleeps keeps its local \<open>i\<close> and goes on from there when woken.
\<close>

datatype pipe_result =
    Return cint pipe
  | Sleep_nwrite pipe cint
  | Sleep_nread pipe

fun pipe_of :: "pipe_result \<Rightarrow> pipe" where
  "pipe_of (Return r p) = p"
| "pipe_of (Sleep_nwrite p i) = p"
| "pipe_of (Sleep_nread p) = p"

text \<open>
  \<open>pipealloc\<close>, as far as the pipe itself goes: \<open>kalloc\<close> hands out a page whose
  bytes are whatever they are (\<open>d\<close>), and the four fields are set.
\<close>

definition pipealloc :: "byte list \<Rightarrow> pipe" where
  "pipealloc d = \<lparr>data = d, nread = 0, nwrite = 0, readopen = 1, writeopen = 1\<rparr>"

text \<open>\<open>pipeclose\<close>: \<open>None\<close> when the pipe has been freed.\<close>

definition pipeclose :: "pipe \<Rightarrow> int \<Rightarrow> pipe option" where
  "pipeclose pi writable =
     (let pi1 = (if writable \<noteq> 0 then pi\<lparr>writeopen := 0\<rparr> else pi\<lparr>readopen := 0\<rparr>)
      in if readopen pi1 = 0 \<and> writeopen pi1 = 0 then None else Some pi1)"

text \<open>The two \<open>delta\<close> computations of \<open>pipewrite\<close> and \<open>piperead\<close>.\<close>

definition pipewrite_delta :: "pipe \<Rightarrow> cint \<Rightarrow> cint \<Rightarrow> uint" where
  "pipewrite_delta pi n i =
     (let delta = min_c (n - i) (PIPESIZE - (nwrite pi - nread pi))
      in min_c delta (PIPESIZE - (nwrite pi mod PIPESIZE)))"

definition piperead_delta :: "pipe \<Rightarrow> cint \<Rightarrow> cint \<Rightarrow> uint" where
  "piperead_delta pi n i =
     (let delta = min_c (nwrite pi - nread pi) (n - i)
      in min_c delta (PIPESIZE - (nread pi mod PIPESIZE)))"

text \<open>
  \<open>copyin\<close> and \<open>copyout\<close> are not part of these files. \<open>copyin\<close> is a parameter
  \<open>cin buf off srcva len\<close> that gives the return code and the pipe buffer as the call
  leaves it; \<open>copyout\<close> is a parameter \<open>cout dstva bytes\<close> that gives the return code.
  \<open>pr->killed\<close> may be set by another thread at any time: \<open>killed i\<close> is its value when
  the loop tests it with the local counter at \<open>i\<close>.
\<close>

type_synonym copyin = "byte list \<Rightarrow> nat \<Rightarrow> uint64 \<Rightarrow> cint \<Rightarrow> int \<times> byte list"
type_synonym copyout = "uint64 \<Rightarrow> byte list \<Rightarrow> int"

function pipewrite_loop ::
  "copyin \<Rightarrow> (cint \<Rightarrow> int) \<Rightarrow> pipe \<Rightarrow> uint64 \<Rightarrow> cint \<Rightarrow> cint \<Rightarrow> pipe_result" where
  "pipewrite_loop cin killed pi addr n i =
     (if i <s n then
        if readopen pi = 0 \<or> killed i \<noteq> 0 then Return (- 1) pi
        else if nwrite pi = nread pi + PIPESIZE then Sleep_nwrite pi i
        else
          let delta = pipewrite_delta pi n i;
              r = cin (data pi) (unat (nwrite pi mod PIPESIZE)) (addr + scast i) delta
          in if fst r = - 1 then Return i (pi\<lparr>data := snd r\<rparr>)
             else pipewrite_loop cin killed
                    (pi\<lparr>data := snd r, nwrite := nwrite pi + delta\<rparr>) addr n (i + delta)
      else Return i pi)"
  by pat_completeness auto

text \<open>Facts about the loop counter that the termination proofs need.\<close>

lemma sless_diff:
  assumes "i <s (n::32 word)"
  shows "uint (n - i) = sint n - sint i"
proof -
  have "n - i = word_of_int (sint n - sint i)" by simp
  then have "uint (n - i) = (sint n - sint i) mod 2 ^ 32"
    by (simp only: uint_word_of_int) simp
  moreover have "0 < sint n - sint i" using assms by (simp add: word_sless_alt)
  moreover have "sint n - sint i < 2 ^ 32" using sint_lt[of n] sint_ge[of i] by simp
  ultimately show ?thesis by simp
qed

lemma sint_advance:
  assumes "i <s (n::32 word)" and "d \<le> n - i"
  shows "sint (i + d) = sint i + uint d"
proof -
  have le: "uint d \<le> sint n - sint i"
    using assms sless_diff[OF assms(1)] by (simp add: word_le_def)
  have "i + d = word_of_int (sint i + uint d)" by simp
  then have "sint (i + d) = signed_take_bit 31 (sint i + uint d)"
    by (simp only: sint_sbintrunc') simp
  moreover have g: "- 2147483648 \<le> sint i" using sint_ge[of i] by simp
  moreover have "- 2147483648 \<le> sint i + uint d"
    using g uint_nonnegative[of d] by linarith
  moreover have "sint i + uint d < 2 ^ 31" using le sint_lt[of n] by simp
  ultimately show ?thesis by (simp add: signed_take_bit_int_eq_self)
qed

lemma counter_decreases:
  assumes "i <s (n::32 word)" and "d \<le> n - i" and "d \<noteq> 0"
  shows "nat (sint n - sint (i + d)) < nat (sint n - sint i)"
proof -
  have "uint d \<noteq> 0" using assms(3) by (simp add: uint_0_iff)
  moreover have "0 \<le> uint d" by simp
  ultimately have "0 < uint d" by linarith
  then show ?thesis
    using sint_advance[OF assms(1,2)] assms(1) by (simp add: word_sless_alt)
qed

lemma min_c_nz: "a \<noteq> 0 \<Longrightarrow> b \<noteq> 0 \<Longrightarrow> min_c a b \<noteq> 0"
  by (simp add: min_c_def)

lemma min_c_le1: "min_c a b \<le> a"
  by (auto simp: min_c_def)

lemma min_c_le2: "min_c a b \<le> b"
  by (auto simp: min_c_def)

lemma to_wrap_end_nz: "PIPESIZE - (x mod PIPESIZE) \<noteq> 0"
proof -
  have "x mod PIPESIZE < PIPESIZE"
    by (rule word_mod_less_divisor) (simp add: PIPESIZE_def)
  then show ?thesis by auto
qed

lemma pipewrite_delta_nz:
  assumes "i <s n" and "nwrite pi \<noteq> nread pi + PIPESIZE"
  shows "pipewrite_delta pi n i \<noteq> 0"
proof -
  have "n - i \<noteq> 0" using assms(1) by (auto simp: word_sless_alt)
  moreover have "PIPESIZE - (nwrite pi - nread pi) \<noteq> 0"
    using assms(2) by (metis add.commute diff_add_cancel right_minus_eq)
  ultimately show ?thesis
    unfolding pipewrite_delta_def Let_def by (intro min_c_nz to_wrap_end_nz)
qed

lemma pipewrite_delta_le: "pipewrite_delta pi n i \<le> n - i"
  unfolding pipewrite_delta_def Let_def by (meson min_c_le1 order_trans)

termination pipewrite_loop
proof (relation "measure (\<lambda>(cin, killed, pi, addr, n, i). nat (sint n - sint i))", goal_cases)
  case 1
  show ?case by simp
next
  case (2 cin killed pi addr n i x xa)
  then have "nat (sint n - sint (i + x)) < nat (sint n - sint i)"
    by (intro counter_decreases) (simp_all add: pipewrite_delta_le pipewrite_delta_nz)
  then show ?case
    by (simp only: in_measure prod.case)
qed

definition pipewrite :: "copyin \<Rightarrow> (cint \<Rightarrow> int) \<Rightarrow> pipe \<Rightarrow> uint64 \<Rightarrow> cint \<Rightarrow> pipe_result" where
  "pipewrite cin killed pi addr n = pipewrite_loop cin killed pi addr n 0"

text \<open>The copy loop of \<open>piperead\<close>: it gives the final \<open>i\<close> and the pipe.\<close>

function piperead_loop :: "copyout \<Rightarrow> pipe \<Rightarrow> uint64 \<Rightarrow> cint \<Rightarrow> cint \<Rightarrow> cint \<times> pipe" where
  "piperead_loop cout pi addr n i =
     (if i <s n then
        if nread pi = nwrite pi then (i, pi)
        else
          let delta = piperead_delta pi n i
          in if cout (addr + scast i)
                  (take (unat delta) (drop (unat (nread pi mod PIPESIZE)) (data pi))) = - 1
             then (i, pi)
             else piperead_loop cout (pi\<lparr>nread := nread pi + delta\<rparr>) addr n (i + delta)
      else (i, pi))"
  by pat_completeness auto

lemma piperead_delta_nz:
  assumes "i <s n" and "nread pi \<noteq> nwrite pi"
  shows "piperead_delta pi n i \<noteq> 0"
proof -
  have "n - i \<noteq> 0" using assms(1) by (auto simp: word_sless_alt)
  moreover have "nwrite pi - nread pi \<noteq> 0" using assms(2) by simp
  ultimately show ?thesis
    unfolding piperead_delta_def Let_def by (intro min_c_nz to_wrap_end_nz)
qed

lemma piperead_delta_le: "piperead_delta pi n i \<le> n - i"
  unfolding piperead_delta_def Let_def by (meson min_c_le1 min_c_le2 order_trans)

termination piperead_loop
proof (relation "measure (\<lambda>(cout, pi, addr, n, i). nat (sint n - sint i))", goal_cases)
  case 1
  show ?case by simp
next
  case (2 cout pi addr n i x)
  then have "nat (sint n - sint (i + x)) < nat (sint n - sint i)"
    by (intro counter_decreases) (simp_all add: piperead_delta_le piperead_delta_nz)
  then show ?case
    by (simp only: in_measure prod.case)
qed

text \<open>
  \<open>piperead\<close> from its start to the point where it returns or sleeps. A reader
  that is woken tests the condition of its first loop again, so it runs \<open>piperead\<close>
  again on the pipe as it is then.
\<close>

definition piperead :: "copyout \<Rightarrow> int \<Rightarrow> pipe \<Rightarrow> uint64 \<Rightarrow> cint \<Rightarrow> pipe_result" where
  "piperead cout killed pi addr n =
     (if nread pi = nwrite pi \<and> writeopen pi \<noteq> 0 then
        (if killed \<noteq> 0 then Return (- 1) pi else Sleep_nread pi)
      else case piperead_loop cout pi addr n 0 of (i, pi') \<Rightarrow> Return i pi')"

declare pipewrite_loop.simps [simp del] piperead_loop.simps [simp del]

text \<open>
  The pipes that can exist: \<open>pipealloc\<close> makes one, and every stretch of
  \<open>pipewrite\<close> (from its start, or from the \<open>i\<close> a sleeping writer kept),
  \<open>piperead\<close> or \<open>pipeclose\<close> that runs with the lock held takes it to the next.
\<close>

inductive pipe_reach :: "pipe \<Rightarrow> bool" where
  reach_alloc: "pipe_reach (pipealloc d)"
| reach_write: "pipe_reach p \<Longrightarrow> pipe_reach (pipe_of (pipewrite_loop cin killed p addr n i))"
| reach_read: "pipe_reach p \<Longrightarrow> pipe_reach (pipe_of (piperead cout k p addr n))"
| reach_close: "pipe_reach p \<Longrightarrow> pipeclose p w = Some p' \<Longrightarrow> pipe_reach p'"

definition pipe_inv :: "pipe \<Rightarrow> bool" where
  "pipe_inv p \<longleftrightarrow> nwrite p - nread p \<le> PIPESIZE"

section \<open>The log (kernel/log.c part of pipe\_new.c)\<close>

text \<open>
  \<open>param.h\<close> is not among the files, so the constants it defines are parameters.
  C's \<open>int\<close> is modelled as \<open>int\<close>, with the wrap-around of the 32-bit machine
  arithmetic written out: \<open>wrap32 x\<close> is the \<open>int\<close> the RISC-V kernel holds when
  the exact result is \<open>x\<close>. It stands at every addition, subtraction and multiplication
  of \<open>begin_op\<close>, \<open>log_write\<close> and \<open>end_op\<close>, whose counters move with every
  system call, and at the addition on \<open>lh.seq_nbr\<close> in \<open>find_first_commit\<close>. The
  arithmetic on block numbers (\<open>initlog\<close>, \<open>read_head\<close>, \<open>write_head\<close>,
  \<open>write_log\<close>, \<open>install_trans\<close>) and on loop indices that the loop condition keeps
  below a bound is left exact. Every operand of \<open>%\<close> is non-negative with a positive
  divisor where the code runs, and there C's \<open>%\<close> and \<open>mod\<close> agree.
\<close>

definition wrap32 :: "int \<Rightarrow> int" where
  "wrap32 x = (x + 2147483648) mod 4294967296 - 2147483648"

record param =
  LOGCOPIES :: int
  LOGSIZE :: int
  MAXOPBLOCKS :: int
  BSIZE :: int

definition MAX_SEQ_NBR :: "param \<Rightarrow> int" where
  "MAX_SEQ_NBR c = LOGCOPIES c + 1"

datatype panic =
    Too_big_logheader
  | Find_first_commit
  | Log_committing
  | Too_big_transaction
  | Outside_of_trans

text \<open>
  \<open>struct logheader\<close> and \<open>struct log\<close>. The fields \<open>n\<close>, \<open>block\<close> and
  \<open>seq_nbr\<close> of the header are \<open>lh_n\<close>, \<open>lh_block\<close> and \<open>lh_seq_nbr\<close>, and \<open>size\<close> is
  \<open>size_log\<close>. The spinlocks are left out: every function below is one stretch of code
  that runs with \<open>logs.lock\<close> held, or (recovery, \<open>commit\<close>) is taken as run in one
  piece.
\<close>

record logheader =
  lh_n :: int
  lh_block :: "int list"
  lh_seq_nbr :: int

record log =
  start :: int
  size_log :: int
  outstanding :: int
  committing :: int
  dev :: int
  lh :: logheader

text \<open>
  The global \<open>struct logs logs\<close> (fields \<open>logs\<close>, \<open>active\<close>, \<open>copies_committed\<close>,
  \<open>seq_nbr\<close>), together with the blocks of the disk. A block is its \<open>BSIZE\<close> bytes
  read as an array of \<open>int\<close>: seen as a \<open>struct logheader\<close>, entry 0 is \<open>n\<close>, entry
  \<open>1 + i\<close> is \<open>block[i]\<close> and entry \<open>LOGSIZE + 1\<close> is \<open>seq_nbr\<close>.
  \<open>bcache dev b\<close> is the content \<open>bread\<close> gives for block \<open>b\<close>, \<open>disk dev b\<close> is
  what is on the device.
\<close>

record kernel =
  logs :: "log list"
  active :: int
  copies_committed :: int
  seq_nbr :: int
  bcache :: "int \<Rightarrow> int \<Rightarrow> int list"
  disk :: "int \<Rightarrow> int \<Rightarrow> int list"

definition slot :: "kernel \<Rightarrow> int \<Rightarrow> log" where
  "slot s i = logs s ! nat i"

definition slot_update :: "int \<Rightarrow> (log \<Rightarrow> log) \<Rightarrow> kernel \<Rightarrow> kernel" where
  "slot_update i f s = s\<lparr>logs := (logs s)[nat i := f (logs s ! nat i)]\<rparr>"

text \<open>
  Modelled from the spec: the buffer cache (\<open>bread\<close>, \<open>bwrite\<close>) is not among the
  files. \<open>bread(dev, blockno)\<close> gives a buffer with the block's data, \<open>bwrite(buf)\<close>
  flushes the buffer to the device synchronously. \<open>bpin\<close>, \<open>bunpin\<close> and \<open>brelse\<close>
  only move a buffer's reference count, which is not modelled.
\<close>

definition bread :: "kernel \<Rightarrow> int \<Rightarrow> int \<Rightarrow> int list" where
  "bread s d b = bcache s d b"

definition bwrite :: "int \<Rightarrow> int \<Rightarrow> int list \<Rightarrow> kernel \<Rightarrow> kernel" where
  "bwrite d b blk s =
     s\<lparr>bcache := (bcache s)(d := (bcache s d)(b := blk)),
       disk := (disk s)(d := (disk s d)(b := blk))\<rparr>"

text \<open>
  \<open>install_trans\<close>: each turn of the loop copies log block \<open>start + tail + 1\<close> over the
  buffer of block \<open>lh.block[tail]\<close> and writes that buffer.
\<close>

function install_trans_loop :: "log \<Rightarrow> int \<Rightarrow> kernel \<Rightarrow> kernel" where
  "install_trans_loop l tail s =
     (if tail < lh_n (lh l) then
        let lbuf = bread s (dev l) (start l + tail + 1)
        in install_trans_loop l (tail + 1) (bwrite (dev l) (lh_block (lh l) ! nat tail) lbuf s)
      else s)"
  by pat_completeness auto
termination
  by (relation "measure (\<lambda>(l, tail, s). nat (lh_n (lh l) - tail))") auto

definition install_trans :: "int \<Rightarrow> int \<Rightarrow> kernel \<Rightarrow> kernel" where
  "install_trans recovering lognum s = install_trans_loop (slot s lognum) 0 s"

text \<open>
  \<open>read_head\<close>. The header of slot \<open>lognum\<close> is read from block
  \<open>log->start + (lognum * log->size)\<close>.
\<close>

function read_head_blocks :: "int \<Rightarrow> int \<Rightarrow> int list \<Rightarrow> int list \<Rightarrow> int list" where
  "read_head_blocks i k blk buf =
     (if i < k then read_head_blocks (i + 1) k (blk[nat i := buf ! nat (1 + i)]) buf else blk)"
  by pat_completeness auto
termination
  by (relation "measure (\<lambda>(i, k, blk, buf). nat (k - i))") auto

definition read_head_slot :: "param \<Rightarrow> int \<Rightarrow> kernel \<Rightarrow> kernel" where
  "read_head_slot c lognum s =
     (let l = slot s lognum;
          buf = bread s (dev l) (start l + (lognum * size_log l));
          k = buf ! 0
      in slot_update lognum
           (\<lambda>l. l\<lparr>lh := \<lparr>lh_n = k,
                          lh_block = read_head_blocks 0 k (lh_block (lh l)) buf,
                          lh_seq_nbr = buf ! nat (LOGSIZE c + 1)\<rparr>\<rparr>) s)"

function read_head_loop :: "param \<Rightarrow> int \<Rightarrow> kernel \<Rightarrow> kernel" where
  "read_head_loop c lognum s =
     (if lognum < LOGCOPIES c then read_head_loop c (lognum + 1) (read_head_slot c lognum s)
      else s)"
  by pat_completeness auto
termination
  by (relation "measure (\<lambda>(c, lognum, s). nat (LOGCOPIES c - lognum))") auto

definition read_head :: "param \<Rightarrow> kernel \<Rightarrow> kernel" where
  "read_head c s = read_head_loop c 0 s"

text \<open>
  \<open>write_head\<close>: the buffer of block \<open>log->start + (lognum * log->size)\<close> gets \<open>n\<close>
  and the first \<open>n\<close> block numbers, and is written.
\<close>

function write_head_blocks :: "int \<Rightarrow> int \<Rightarrow> int list \<Rightarrow> int list \<Rightarrow> int list" where
  "write_head_blocks i k buf blk =
     (if i < k then write_head_blocks (i + 1) k (buf[nat (1 + i) := blk ! nat i]) blk else buf)"
  by pat_completeness auto
termination
  by (relation "measure (\<lambda>(i, k, buf, blk). nat (k - i))") auto

definition write_head :: "int \<Rightarrow> kernel \<Rightarrow> kernel" where
  "write_head lognum s =
     (let l = slot s lognum;
          b = start l + (lognum * size_log l);
          buf = bread s (dev l) b;
          hb = write_head_blocks 0 (lh_n (lh l)) (buf[0 := lh_n (lh l)]) (lh_block (lh l))
      in bwrite (dev l) b hb s)"

text \<open>
  \<open>find_first_commit\<close>. Each of its three loops gives \<open>- 1\<close> when it leaves
  \<open>first_idx\<close> as it was.
\<close>

function ffc_forward :: "param \<Rightarrow> kernel \<Rightarrow> int \<Rightarrow> int" where
  "ffc_forward c s i =
     (if i < LOGCOPIES c then
        if lh_n (lh (slot s i)) > 0 then i else ffc_forward c s (i + 1)
      else - 1)"
  by pat_completeness auto
termination
  by (relation "measure (\<lambda>(c, s, i). nat (LOGCOPIES c - i))") auto

function ffc_backward :: "param \<Rightarrow> kernel \<Rightarrow> int \<Rightarrow> int" where
  "ffc_backward c s i =
     (if i > 0 then
        if lh_n (lh (slot s i)) = 0 then (i + 1) mod MAX_SEQ_NBR c
        else ffc_backward c s (i - 1)
      else - 1)"
  by pat_completeness auto
termination
  by (relation "measure (\<lambda>(c, s, i). nat i)") auto

function ffc_seq :: "param \<Rightarrow> kernel \<Rightarrow> int \<Rightarrow> int" where
  "ffc_seq c s i =
     (if i < LOGCOPIES c then
        let next_log = (i + 1) mod LOGCOPIES c
        in if wrap32 (lh_seq_nbr (lh (slot s i)) + 1) \<noteq> lh_seq_nbr (lh (slot s next_log))
           then next_log
           else ffc_seq c s (i + 1)
      else - 1)"
  by pat_completeness auto
termination
  by (relation "measure (\<lambda>(c, s, i). nat (LOGCOPIES c - i))") auto

definition find_first_commit :: "param \<Rightarrow> kernel \<Rightarrow> panic + int" where
  "find_first_commit c s =
     (let first_idx =
            (if lh_n (lh (slot s 0)) = 0 then
               (let f = ffc_forward c s 0 in if f < 0 then 0 else f)
             else ffc_backward c s (LOGCOPIES c - 1));
          first_idx = (if first_idx < 0 then ffc_seq c s 0 else first_idx)
      in if first_idx < 0 then Inl Find_first_commit else Inr first_idx)"

text \<open>
  \<open>recover_from_log\<close>. The loop also keeps the list of the slots it has passed to
  \<open>install_trans\<close>, in order; the C code has no such list, it is there to state what
  the loop visits.
\<close>

function recover_loop :: "param \<Rightarrow> int \<Rightarrow> int list \<Rightarrow> kernel \<Rightarrow> int list \<times> kernel" where
  "recover_loop c i visited s =
     (if i < LOGCOPIES c then
        let lognum = i mod LOGCOPIES c;
            s1 = install_trans 1 lognum s;
            s2 = slot_update lognum (\<lambda>l. l\<lparr>lh := (lh l)\<lparr>lh_n := 0\<rparr>\<rparr>) s1;
            s3 = write_head lognum s2
        in recover_loop c (i + 1) (visited @ [lognum]) s3
      else (visited, s))"
  by pat_completeness auto
termination
  by (relation "measure (\<lambda>(c, i, visited, s). nat (LOGCOPIES c - i))") auto

definition recover_from_log :: "param \<Rightarrow> kernel \<Rightarrow> panic + int list \<times> kernel" where
  "recover_from_log c s =
     (let s1 = read_head c s
      in case find_first_commit c s1 of
           Inl p \<Rightarrow> Inl p
         | Inr first \<Rightarrow> Inr (recover_loop c first [] s1))"

text \<open>
  \<open>initlog\<close>. The superblock gives \<open>nlog\<close> and \<open>logstart\<close> (both \<open>uint\<close>). Each slot
  is built in a local \<open>struct log\<close> that is not initialised, so the fields the loop does
  not set hold whatever was in memory: \<open>junk i\<close> is that content for slot \<open>i\<close>. The
  global \<open>logs\<close> starts zeroed, and at boot the buffer cache holds nothing, so
  \<open>bread\<close> gives what is on the disk \<open>dk\<close>.
\<close>

record superblock =
  nlog :: nat
  logstart :: nat

definition initlog ::
  "param \<Rightarrow> (nat \<Rightarrow> log) \<Rightarrow> (int \<Rightarrow> int \<Rightarrow> int list) \<Rightarrow> int \<Rightarrow> superblock
     \<Rightarrow> panic + int list \<times> kernel" where
  "initlog c junk dk d sb =
     (if 4 * (LOGSIZE c + 2) \<ge> BSIZE c then Inl Too_big_logheader
      else
        let sz = int (nlog sb) div LOGCOPIES c;
            mk = (\<lambda>i. (junk i)\<lparr>start := int (logstart sb) + (int i * sz), size_log := sz,
                                dev := d, lh := (lh (junk i))\<lparr>lh_seq_nbr := - 1\<rparr>\<rparr>)
        in recover_from_log c
             \<lparr>logs = map mk [0..<nat (LOGCOPIES c)], active = 0, copies_committed = 0,
              seq_nbr = 0, bcache = dk, disk = dk\<rparr>)"

text \<open>
  \<open>begin_op\<close>. It sleeps on \<open>&logs\<close> while \<open>logs.copies_committed == 4\<close>; a
  sleeper that is woken runs the test again, that is, runs \<open>begin_op\<close> again. Its
  second loop has no exit but admission: \<open>None\<close> means that it runs for ever.
\<close>

datatype begin_result = Sleep_logs | Admitted kernel

partial_function (option) begin_op_loop :: "param \<Rightarrow> kernel \<Rightarrow> kernel option" where
  "begin_op_loop c s =
     (if committing (slot s (active s)) \<noteq> 0 then
        begin_op_loop c (s\<lparr>active := wrap32 (active s + 1) mod LOGCOPIES c\<rparr>)
      else if wrap32 (lh_n (lh (slot s (active s)))
                     + wrap32 (wrap32 (outstanding (slot s (active s)) + 1) * MAXOPBLOCKS c))
                > LOGSIZE c then
        begin_op_loop c (s\<lparr>active := wrap32 (active s + 1) mod LOGCOPIES c\<rparr>)
      else Some (slot_update (active s) (\<lambda>l. l\<lparr>outstanding := wrap32 (outstanding l + 1)\<rparr>) s))"

declare begin_op_loop.simps [code]

definition begin_op :: "param \<Rightarrow> kernel \<Rightarrow> begin_result option" where
  "begin_op c s =
     (if copies_committed s = 4 then Some Sleep_logs
      else map_option Admitted (begin_op_loop c s))"

text \<open>
  \<open>log_write\<close>, given the block number of the buffer. The search loop gives the
  index \<open>i\<close> it stops at.
\<close>

function log_write_find :: "int list \<Rightarrow> int \<Rightarrow> int \<Rightarrow> int \<Rightarrow> int" where
  "log_write_find blk k blockno i =
     (if i < k then
        if blk ! nat i = blockno then i else log_write_find blk k blockno (i + 1)
      else i)"
  by pat_completeness auto
termination
  by (relation "measure (\<lambda>(blk, k, blockno, i). nat (k - i))") auto

definition log_write :: "param \<Rightarrow> kernel \<Rightarrow> int \<Rightarrow> panic + kernel" where
  "log_write c s blockno =
     (let log = slot s (active s)
      in if lh_n (lh log) \<ge> LOGSIZE c \<or> lh_n (lh log) \<ge> wrap32 (size_log log - 1)
         then Inl Too_big_transaction
         else if outstanding log < 1 then Inl Outside_of_trans
         else
           let i = log_write_find (lh_block (lh log)) (lh_n (lh log)) blockno 0;
               h1 = (lh log)\<lparr>lh_block := (lh_block (lh log))[nat i := blockno]\<rparr>;
               h2 = (if i = lh_n (lh log) then h1\<lparr>lh_n := wrap32 (lh_n h1 + 1)\<rparr> else h1)
           in Inr (slot_update (active s) (\<lambda>l. l\<lparr>lh := h2\<rparr>) s))"

text \<open>\<open>write_log\<close> and \<open>commit\<close>.\<close>

function write_log_loop :: "log \<Rightarrow> int \<Rightarrow> kernel \<Rightarrow> kernel" where
  "write_log_loop l tail s =
     (if tail < lh_n (lh l) then
        let from_buf = bread s (dev l) (lh_block (lh l) ! nat tail)
        in write_log_loop l (tail + 1) (bwrite (dev l) (start l + tail + 1) from_buf s)
      else s)"
  by pat_completeness auto
termination
  by (relation "measure (\<lambda>(l, tail, s). nat (lh_n (lh l) - tail))") auto

definition write_log :: "int \<Rightarrow> kernel \<Rightarrow> kernel" where
  "write_log lognum s = write_log_loop (slot s lognum) 0 s"

definition commit :: "int \<Rightarrow> kernel \<Rightarrow> kernel" where
  "commit lognum s =
     (if lh_n (lh (slot s lognum)) > 0 then
        let s1 = write_log lognum s;
            s2 = write_head lognum s1;
            s3 = install_trans 0 lognum s2;
            s4 = slot_update lognum (\<lambda>l. l\<lparr>lh := (lh l)\<lparr>lh_n := 0\<rparr>\<rparr>) s3
        in write_head lognum s4
      else s)"

text \<open>
  \<open>end_op\<close> in its three stretches. \<open>end_op_seal\<close> is the first one, under the
  locks: it gives \<open>to_commit\<close> and the new state. \<open>end_op_turn\<close> is the negation of
  the condition of the \<open>while\<close> loop in which the committer sleeps. \<open>end_op_finish\<close>
  is the last stretch, after \<open>commit\<close>. The pointer \<open>log\<close> of \<open>end_op\<close> is the slot
  \<open>to_commit\<close>.
\<close>

definition end_op_seal :: "kernel \<Rightarrow> panic + int \<times> kernel" where
  "end_op_seal s =
     (let a = active s;
          s1 = slot_update a (\<lambda>l. l\<lparr>outstanding := wrap32 (outstanding l - 1)\<rparr>) s
      in if committing (slot s1 a) \<noteq> 0 then Inl Log_committing
         else if outstanding (slot s1 a) = 0 then
           Inr (a, (slot_update a
                      (\<lambda>l. l\<lparr>committing := 1, lh := (lh l)\<lparr>lh_seq_nbr := seq_nbr s1\<rparr>\<rparr>) s1)
                    \<lparr>seq_nbr := wrap32 (seq_nbr s1 + 1),
                      copies_committed := wrap32 (copies_committed s1 + 1)\<rparr>)
         else Inr (- 1, s1))"

definition end_op_turn :: "int \<Rightarrow> kernel \<Rightarrow> bool" where
  "end_op_turn lognum s \<longleftrightarrow>
     wrap32 (lh_seq_nbr (lh (slot s lognum)) + copies_committed s) = seq_nbr s"

definition end_op_finish :: "int \<Rightarrow> kernel \<Rightarrow> kernel" where
  "end_op_finish lognum s =
     (slot_update lognum (\<lambda>l. l\<lparr>committing := 0\<rparr>) s)
       \<lparr>copies_committed := wrap32 (copies_committed s - 1)\<rparr>"

text \<open>
  \<open>end_op\<close> as one thread runs it when no other thread runs in between: it returns,
  or its committer sleeps because it is not the turn of its slot.
\<close>

datatype end_result = Returned kernel | Sleep_turn int kernel

definition end_op :: "kernel \<Rightarrow> panic + end_result" where
  "end_op s =
     (case end_op_seal s of
        Inl p \<Rightarrow> Inl p
      | Inr (to_commit, s1) \<Rightarrow>
          if to_commit \<ge> 0 then
            if end_op_turn to_commit s1
            then Inr (Returned (end_op_finish to_commit (commit to_commit s1)))
            else Inr (Sleep_turn to_commit s1)
          else Inr (Returned s1))"

declare install_trans_loop.simps [simp del] read_head_blocks.simps [simp del]
  read_head_loop.simps [simp del] write_head_blocks.simps [simp del]
  ffc_forward.simps [simp del] ffc_backward.simps [simp del] ffc_seq.simps [simp del]
  recover_loop.simps [simp del] log_write_find.simps [simp del]
  write_log_loop.simps [simp del]

text \<open>The entries of a header that count: the first \<open>n\<close> of \<open>block\<close>.\<close>

definition hdr_entries :: "logheader \<Rightarrow> int list" where
  "hdr_entries h = take (nat (lh_n h)) (lh_block h)"

text \<open>
  A small configuration for worked examples: blocks of 64 bytes (16 \<open>int\<close>s), a
  header of up to 6 block numbers, and four slots of \<open>sz\<close> blocks each on device 1,
  the first at block 2 (what \<open>initlog\<close> makes of \<open>logstart = 2\<close> and
  \<open>nlog = 4 * sz\<close>), every slot idle with an empty header, every block zeroed.
\<close>

definition ex_param :: param where
  "ex_param = \<lparr>LOGCOPIES = 4, LOGSIZE = 6, MAXOPBLOCKS = 2, BSIZE = 64\<rparr>"

definition ex_log :: "int \<Rightarrow> int \<Rightarrow> log" where
  "ex_log sz i = \<lparr>start = 2 + i * sz, size_log = sz, outstanding = 0, committing = 0, dev = 1,
                  lh = \<lparr>lh_n = 0, lh_block = [0, 0, 0, 0, 0, 0], lh_seq_nbr = - 1\<rparr>\<rparr>"

definition ex_block :: "int list" where
  "ex_block = [0, 0, 0, 0, 0, 0, 0, 0, 0, 0, 0, 0, 0, 0, 0, 0]"

definition ex_kernel :: "int \<Rightarrow> kernel" where
  "ex_kernel sz = \<lparr>logs = [ex_log sz 0, ex_log sz 1, ex_log sz 2, ex_log sz 3], active = 0,
                   copies_committed = 0, seq_nbr = 0,
                   bcache = (\<lambda>d b. ex_block), disk = (\<lambda>d b. ex_block)\<rparr>"

text \<open>
  The example with slot 1 sealed by \<open>end_op\<close>: one logged block, number 55, and
  sequence number 3 stamped into the header in memory.
\<close>

definition ex_sealed :: kernel where
  "ex_sealed = (slot_update 1 (\<lambda>l. l\<lparr>committing := 1,
                    lh := \<lparr>lh_n = 1, lh_block = [55, 0, 0, 0, 0, 0], lh_seq_nbr = 3\<rparr>\<rparr>)
                 (ex_kernel 7))\<lparr>copies_committed := 1, seq_nbr := 4\<rparr>"

definition ex_zero_lh :: logheader where
  "ex_zero_lh = \<lparr>lh_n = 0, lh_block = [0, 0, 0, 0, 0, 0], lh_seq_nbr = - 1\<rparr>"

text \<open>
  A disk as a crash can leave it, for the example with \<open>size = 7\<close>. The header blocks
  are where \<open>read_head\<close> looks for them (2, 16, 30 and 44). Slot 3 holds a committed
  transaction (block 60, payload in log block \<open>23 + 1\<close>), and so does slot 0 (block 50,
  payload in log block \<open>2 + 1\<close>): the window of committed slots wraps from slot 3 to
  slot 0.
\<close>

definition ex_crash_disk :: "int \<Rightarrow> int \<Rightarrow> int list" where
  "ex_crash_disk d b =
     (if b = 2 then [1, 50, 0, 0, 0, 0, 0, 0, 0, 0, 0, 0, 0, 0, 0, 0]
      else if b = 3 then [9, 9, 9, 9, 9, 9, 9, 9, 9, 9, 9, 9, 9, 9, 9, 9]
      else if b = 44 then [1, 60, 0, 0, 0, 0, 0, 0, 0, 0, 0, 0, 0, 0, 0, 0]
      else if b = 24 then [7, 7, 7, 7, 7, 7, 7, 7, 7, 7, 7, 7, 7, 7, 7, 7]
      else ex_block)"

definition ex_crashed :: kernel where
  "ex_crashed = (ex_kernel 7)\<lparr>bcache := ex_crash_disk, disk := ex_crash_disk\<rparr>"

text \<open>A configuration with two slots, both sealed and waiting for their commit.\<close>

definition ex2_param :: param where
  "ex2_param = \<lparr>LOGCOPIES = 2, LOGSIZE = 6, MAXOPBLOCKS = 2, BSIZE = 64\<rparr>"

definition ex2_kernel :: kernel where
  "ex2_kernel = \<lparr>logs = [(ex_log 7 0)\<lparr>committing := 1, lh := (lh (ex_log 7 0))\<lparr>lh_seq_nbr := 0\<rparr>\<rparr>,
                         (ex_log 7 1)\<lparr>committing := 1, lh := (lh (ex_log 7 1))\<lparr>lh_seq_nbr := 1\<rparr>\<rparr>],
                 active = 0, copies_committed = 2, seq_nbr = 2,
                 bcache = (\<lambda>d b. ex_block), disk = (\<lambda>d b. ex_block)\<rparr>"

text \<open>
  \<open>k\<close> system calls one after the other, each of them \<open>begin_op(); end_op();\<close>
  with nothing logged; \<open>None\<close> if one of them sleeps or panics.
\<close>

fun run_txns :: "param \<Rightarrow> nat \<Rightarrow> kernel \<Rightarrow> kernel option" where
  "run_txns c 0 s = Some s"
| "run_txns c (Suc k) s =
     (case begin_op c s of
        Some (Admitted s1) \<Rightarrow>
          (case end_op s1 of Inr (Returned s2) \<Rightarrow> run_txns c k s2 | _ \<Rightarrow> None)
      | _ \<Rightarrow> None)"

text \<open>
  Calls of several processes, in the order in which they take \<open>logs.lock\<close>: each
  \<open>begin_op\<close> opens the transaction of another process, and a \<open>log_write\<close> is a call
  of any of the processes whose transaction is open. A panic ends the run; \<open>None\<close> if a
  \<open>begin_op\<close> sleeps or spins.
\<close>

datatype call = Begin_op | Log_write int

fun run_calls :: "param \<Rightarrow> kernel \<Rightarrow> call list \<Rightarrow> (panic + kernel) option" where
  "run_calls c s [] = Some (Inr s)"
| "run_calls c s (Begin_op # cs) =
     (case begin_op c s of Some (Admitted s1) \<Rightarrow> run_calls c s1 cs | _ \<Rightarrow> None)"
| "run_calls c s (Log_write b # cs) =
     (case log_write c s b of Inl p \<Rightarrow> Some (Inl p) | Inr s1 \<Rightarrow> run_calls c s1 cs)"

text \<open>
  Several threads in the log. Every stretch of \<open>begin_op\<close>, \<open>log_write\<close> and
  \<open>end_op\<close> that runs with \<open>logs.lock\<close> held is one step of the system. Besides the
  kernel state, a system state keeps the slots whose committer is in the \<open>while\<close> loop of
  \<open>end_op\<close> (\<open>sealed\<close>) and the slots whose committer has left that loop and is in
  \<open>commit\<close> or about to take the lock again (\<open>installing\<close>). \<open>commit\<close> runs without
  a lock; what it does to the header and the disk is put at the step that ends it, since no
  step in between reads \<open>committing\<close>, \<open>lh.seq_nbr\<close>, \<open>copies_committed\<close> or
  \<open>seq_nbr\<close> from it. A call that sleeps, spins or panics makes no step.

  To speak of the transactions, a system state numbers them in the order in which
  \<open>end_op\<close> seals them: \<open>seals\<close> is how many have been sealed since boot, and
  \<open>tx t\<close> is the number of the transaction that slot \<open>t\<close> was last sealed with, the
  first being number 0. The C code has neither; what it has is the value stamped into
  \<open>lh.seq_nbr\<close>. The \<open>trace\<close> lists three moments of each transaction, with its number
  and the \<open>lh.seq_nbr\<close> its slot holds at that moment: \<open>Seal\<close> when \<open>end_op\<close>
  has stamped the header, \<open>Install_begin\<close> when the committer leaves the \<open>while\<close>
  loop, just before it calls \<open>commit\<close>, and \<open>Install_end\<close> when it takes the lock
  again after \<open>commit\<close> has returned.
\<close>

datatype event = Seal nat int | Install_begin nat int | Install_end nat int

record sys =
  ker :: kernel
  sealed :: "int set"
  installing :: "int set"
  seals :: nat
  tx :: "int \<Rightarrow> nat"
  trace :: "event list"

text \<open>
  What \<open>initlog\<close> leaves in the global \<open>logs\<close>: zeroed counters and \<open>LOGCOPIES\<close>
  slots.
\<close>

definition booted :: "param \<Rightarrow> kernel \<Rightarrow> bool" where
  "booted c k \<longleftrightarrow> copies_committed k = 0 \<and> seq_nbr k = 0 \<and> active k = 0
                  \<and> length (logs k) = nat (LOGCOPIES c)"

inductive step :: "param \<Rightarrow> sys \<Rightarrow> sys \<Rightarrow> bool" for c :: param where
  step_begin: "begin_op c (ker \<sigma>) = Some (Admitted k') \<Longrightarrow> step c \<sigma> (\<sigma>\<lparr>ker := k'\<rparr>)"
| step_write: "log_write c (ker \<sigma>) b = Inr k' \<Longrightarrow> step c \<sigma> (\<sigma>\<lparr>ker := k'\<rparr>)"
| step_end: "end_op_seal (ker \<sigma>) = Inr (t, k') \<Longrightarrow> t < 0 \<Longrightarrow> step c \<sigma> (\<sigma>\<lparr>ker := k'\<rparr>)"
| step_seal: "end_op_seal (ker \<sigma>) = Inr (t, k') \<Longrightarrow> 0 \<le> t \<Longrightarrow>
     step c \<sigma> (\<sigma>\<lparr>ker := k', sealed := insert t (sealed \<sigma>),
                 seals := Suc (seals \<sigma>), tx := (tx \<sigma>)(t := seals \<sigma>),
                 trace := trace \<sigma> @ [Seal (seals \<sigma>) (lh_seq_nbr (lh (slot k' t)))]\<rparr>)"
| step_turn: "t \<in> sealed \<sigma> \<Longrightarrow> end_op_turn t (ker \<sigma>) \<Longrightarrow>
     step c \<sigma> (\<sigma>\<lparr>sealed := sealed \<sigma> - {t}, installing := insert t (installing \<sigma>),
                 trace := trace \<sigma>
                   @ [Install_begin (tx \<sigma> t) (lh_seq_nbr (lh (slot (ker \<sigma>) t)))]\<rparr>)"
| step_finish: "t \<in> installing \<sigma> \<Longrightarrow>
     step c \<sigma> (\<sigma>\<lparr>ker := end_op_finish t (commit t (ker \<sigma>)),
                 installing := installing \<sigma> - {t},
                 trace := trace \<sigma>
                   @ [Install_end (tx \<sigma> t) (lh_seq_nbr (lh (slot (ker \<sigma>) t)))]\<rparr>)"

inductive reach :: "param \<Rightarrow> sys \<Rightarrow> bool" for c :: param where
  reach_boot: "booted c k \<Longrightarrow>
     reach c \<lparr>ker = k, sealed = {}, installing = {}, seals = 0, tx = (\<lambda>t. 0), trace = []\<rparr>"
| reach_step: "reach c \<sigma> \<Longrightarrow> step c \<sigma> \<sigma>' \<Longrightarrow> reach c \<sigma>'"

text \<open>
  The fields that order the commits: \<open>seq_of k t\<close> is \<open>lh.seq_nbr\<close> of slot \<open>t\<close>,
  and \<open>ctl_eq k k'\<close> says that \<open>k'\<close> has the slots, \<open>active\<close>, the two counters,
  and every slot's \<open>committing\<close> and \<open>lh.seq_nbr\<close> as \<open>k\<close> has them.
\<close>

definition seq_of :: "kernel \<Rightarrow> int \<Rightarrow> int" where
  "seq_of k t = lh_seq_nbr (lh (slot k t))"

definition ctl_eq :: "kernel \<Rightarrow> kernel \<Rightarrow> bool" where
  "ctl_eq k k' \<longleftrightarrow> length (logs k') = length (logs k) \<and> active k' = active k
     \<and> copies_committed k' = copies_committed k \<and> seq_nbr k' = seq_nbr k
     \<and> (\<forall>t. committing (slot k' t) = committing (slot k t) \<and> seq_of k' t = seq_of k t)"

text \<open>
  The invariant of the system. \<open>lo_of \<sigma>\<close> is the number of the oldest transaction that is
  sealed and not yet finished. The slots sealed and not yet finished hold the transactions
  from \<open>lo_of \<sigma>\<close> up to \<open>seals \<sigma> - 1\<close>, each once, and each with its number, wrapped
  to 32 bits, in \<open>lh.seq_nbr\<close>; at most the oldest of them is installing; all older
  transactions have finished. \<open>ordered\<close> is what the trace has to satisfy: an install
  begins only after the install of every transaction sealed earlier has ended.
\<close>

definition lo_of :: "sys \<Rightarrow> nat" where
  "lo_of \<sigma> = seals \<sigma> - nat (copies_committed (ker \<sigma>))"

definition ordered :: "event list \<Rightarrow> bool" where
  "ordered tr \<longleftrightarrow>
     (\<forall>j k q. j < length tr \<longrightarrow> tr ! j = Install_begin k q \<longrightarrow>
        q = wrap32 (int k)
        \<and> (\<forall>k1 < k. \<exists>i < j. tr ! i = Install_end k1 (wrap32 (int k1))))"

definition sys_inv :: "param \<Rightarrow> sys \<Rightarrow> bool" where
  "sys_inv c \<sigma> \<longleftrightarrow>
     length (logs (ker \<sigma>)) = nat (LOGCOPIES c)
     \<and> 0 \<le> active (ker \<sigma>) \<and> active (ker \<sigma>) < LOGCOPIES c
     \<and> 0 \<le> copies_committed (ker \<sigma>)
     \<and> nat (copies_committed (ker \<sigma>)) \<le> seals \<sigma>
     \<and> seq_nbr (ker \<sigma>) = wrap32 (int (seals \<sigma>))
     \<and> sealed \<sigma> \<inter> installing \<sigma> = {}
     \<and> (\<forall>t \<in> sealed \<sigma> \<union> installing \<sigma>.
            0 \<le> t \<and> t < LOGCOPIES c \<and> committing (slot (ker \<sigma>) t) \<noteq> 0
            \<and> seq_of (ker \<sigma>) t = wrap32 (int (tx \<sigma> t)))
     \<and> inj_on (tx \<sigma>) (sealed \<sigma> \<union> installing \<sigma>)
     \<and> tx \<sigma> ` (sealed \<sigma> \<union> installing \<sigma>) = {lo_of \<sigma> ..< seals \<sigma>}
     \<and> (\<forall>t \<in> installing \<sigma>. tx \<sigma> t = lo_of \<sigma>)
     \<and> (\<forall>k < lo_of \<sigma>. Install_end k (wrap32 (int k)) \<in> set (trace \<sigma>))
     \<and> (\<forall>k q. Seal k q \<in> set (trace \<sigma>) \<longrightarrow> q = wrap32 (int k))
     \<and> ordered (trace \<sigma>)"

text \<open>
  The example with \<open>size = 7\<close> in the course of a run: slots 0 and 1 each with the given
  \<open>outstanding\<close>, \<open>committing\<close> and \<open>lh.seq_nbr\<close>, then \<open>active\<close> and the two
  counters \<open>seq_nbr\<close> and \<open>copies_committed\<close>.
\<close>

definition ex_slot :: "int \<Rightarrow> int \<times> int \<times> int \<Rightarrow> log" where
  "ex_slot i x = (case x of (out, com, sq) \<Rightarrow>
     (ex_log 7 i)\<lparr>outstanding := out, committing := com,
                   lh := (lh (ex_log 7 i))\<lparr>lh_seq_nbr := sq\<rparr>\<rparr>)"

definition ex_run :: "int \<times> int \<times> int \<Rightarrow> int \<times> int \<times> int \<Rightarrow> int \<Rightarrow> int \<Rightarrow> int \<Rightarrow> kernel"
  where
  "ex_run x0 x1 act pool cc =
     \<lparr>logs = [ex_slot 0 x0, ex_slot 1 x1, ex_log 7 2, ex_log 7 3], active = act,
      copies_committed = cc, seq_nbr = pool,
      bcache = (\<lambda>d b. ex_block), disk = (\<lambda>d b. ex_block)\<rparr>"

text \<open>
  The trace when the first \<open>n\<close> transactions have run one after the other, each sealed,
  installed and finished before the next is sealed, and the state of the example after
  them, all in slot 0.
\<close>

definition run_trace :: "nat \<Rightarrow> event list" where
  "run_trace n = concat (map (\<lambda>k. [Seal k (wrap32 (int k)), Install_begin k (wrap32 (int k)),
                                     Install_end k (wrap32 (int k))]) [0..<n])"

definition ex_idle :: "nat \<Rightarrow> sys" where
  "ex_idle n = \<lparr>ker = ex_run (0, 0, wrap32 (int n - 1)) (0, 0, - 1) 0 (wrap32 (int n)) 0,
                sealed = {}, installing = {}, seals = n, tx = (\<lambda>t. 0)(0 := n - 1),
                trace = run_trace n\<rparr>"

text \<open>
  Two transactions of the example in flight at once: slot 0 was sealed first and has been
  installed and finished, slot 1 was sealed second and its committer has just left the
  \<open>while\<close> loop.
\<close>

definition ex_two :: sys where
  "ex_two = \<lparr>ker = ex_run (0, 0, 0) (0, 1, 1) 1 2 1, sealed = {}, installing = {1},
             seals = 2, tx = (\<lambda>t. 0)(0 := 0, 1 := 1),
             trace = [Seal 0 0, Seal 1 1, Install_begin 0 0, Install_end 0 0,
                      Install_begin 1 1]\<rparr>"

section \<open>Properties of the pipe\<close>

lemma fill_aux:
  fixes x d :: "32 word"
  assumes "x \<le> 2048" and "d \<le> 2048 - x"
  shows "x + d \<le> 2048"
proof -
  have a: "unat x \<le> 2048" using assms(1) by (simp add: word_le_nat_alt)
  have b: "unat (2048 - x) = 2048 - unat x" using assms(1) by (simp add: unat_sub)
  have c: "unat d \<le> 2048 - unat x" using assms(2) b by (simp add: word_le_nat_alt)
  have "unat x + unat d < 2 ^ 32" using a c by simp
  then have "unat (x + d) = unat x + unat d" by (simp add: unat_add_lem[THEN iffD1])
  then show ?thesis using a c by (simp add: word_le_nat_alt)
qed

lemma drain_aux:
  fixes x d :: "32 word"
  assumes "x \<le> 2048" and "d \<le> x"
  shows "x - d \<le> 2048"
proof -
  have "unat (x - d) = unat x - unat d" using assms(2) by (simp add: unat_sub)
  then show ?thesis using assms(1) by (simp add: word_le_nat_alt)
qed

lemma fill_step:
  assumes "nw - nr \<le> PIPESIZE" and "d \<le> PIPESIZE - (nw - nr)"
  shows "nw + d - nr \<le> PIPESIZE"
proof -
  have "nw - nr + d \<le> PIPESIZE"
    using assms fill_aux[of "nw - nr" d] by (simp add: PIPESIZE_def)
  moreover have "nw + d - nr = nw - nr + d" by simp
  ultimately show ?thesis by (simp only:)
qed

lemma drain_step:
  assumes "nw - nr \<le> PIPESIZE" and "d \<le> nw - nr"
  shows "nw - (nr + d) \<le> PIPESIZE"
proof -
  have "nw - nr - d \<le> PIPESIZE"
    using assms drain_aux[of "nw - nr" d] by (simp add: PIPESIZE_def)
  moreover have "nw - (nr + d) = nw - nr - d" by simp
  ultimately show ?thesis by (simp only:)
qed

lemma pipewrite_delta_free: "pipewrite_delta p n i \<le> PIPESIZE - (nwrite p - nread p)"
  unfolding pipewrite_delta_def Let_def by (meson min_c_le1 min_c_le2 order_trans)

lemma piperead_delta_avail: "piperead_delta p n i \<le> nwrite p - nread p"
  unfolding piperead_delta_def Let_def by (meson min_c_le1 min_c_le2 order_trans)

lemma pipewrite_loop_inv:
  "pipe_inv p \<Longrightarrow> pipe_inv (pipe_of (pipewrite_loop cin killed p addr n i))"
proof (induction cin killed p addr n i rule: pipewrite_loop.induct)
  case (1 cin killed pi addr n i)
  show ?case
  proof (cases "i <s n \<and> \<not> (readopen pi = 0 \<or> killed i \<noteq> 0) \<and> nwrite pi \<noteq> nread pi + PIPESIZE")
    case False
    then show ?thesis using "1.prems"
      by (subst pipewrite_loop.simps) (auto simp: pipe_inv_def)
  next
    case True
    let ?d = "pipewrite_delta pi n i"
    let ?r = "cin (data pi) (unat (nwrite pi mod PIPESIZE)) (addr + scast i) ?d"
    have inv': "pipe_inv (pi\<lparr>data := snd ?r, nwrite := nwrite pi + ?d\<rparr>)"
      using "1.prems" fill_step[OF _ pipewrite_delta_free, of pi n i] by (simp add: pipe_inv_def)
    show ?thesis
    proof (cases "fst ?r = - 1")
      case True
      then show ?thesis using \<open>i <s n \<and> _\<close> "1.prems"
        by (subst pipewrite_loop.simps) (simp add: pipe_inv_def Let_def)
    next
      case False
      then show ?thesis using True "1.IH"[OF _ _ _ refl refl False inv']
        by (subst pipewrite_loop.simps) (simp add: Let_def)
    qed
  qed
qed

lemma piperead_loop_inv:
  "pipe_inv p \<Longrightarrow> pipe_inv (snd (piperead_loop cout p addr n i))"
proof (induction cout p addr n i rule: piperead_loop.induct)
  case (1 cout pi addr n i)
  show ?case
  proof (cases "i <s n \<and> nread pi \<noteq> nwrite pi")
    case False
    then show ?thesis using "1.prems"
      by (subst piperead_loop.simps) (auto simp: pipe_inv_def)
  next
    case True
    let ?d = "piperead_delta pi n i"
    have inv': "pipe_inv (pi\<lparr>nread := nread pi + ?d\<rparr>)"
      using "1.prems" drain_step[OF _ piperead_delta_avail, of pi n i] by (simp add: pipe_inv_def)
    show ?thesis
    proof (cases "cout (addr + scast i)
                    (take (unat ?d) (drop (unat (nread pi mod PIPESIZE)) (data pi))) = - 1")
      case True
      then show ?thesis using \<open>i <s n \<and> _\<close> "1.prems"
        by (subst piperead_loop.simps) (simp add: pipe_inv_def Let_def)
    next
      case False
      then show ?thesis using True "1.IH"[OF _ _ refl False inv']
        by (subst piperead_loop.simps) (simp add: Let_def)
    qed
  qed
qed

lemma piperead_inv: "pipe_inv p \<Longrightarrow> pipe_inv (pipe_of (piperead cout k p addr n))"
  using piperead_loop_inv[of p cout addr n 0]
  by (auto simp: piperead_def split: prod.splits)

lemma pipeclose_inv: "pipe_inv p \<Longrightarrow> pipeclose p w = Some p' \<Longrightarrow> pipe_inv p'"
  by (auto simp: pipeclose_def pipe_inv_def Let_def split: if_splits)

lemma pipe_reach_inv: "pipe_reach p \<Longrightarrow> pipe_inv p"
proof (induction rule: pipe_reach.induct)
  case (reach_alloc d)
  show ?case by (simp add: pipe_inv_def pipealloc_def)
next
  case (reach_write p cin killed addr n i)
  then show ?case by (intro pipewrite_loop_inv)
next
  case (reach_read p cout k addr n)
  then show ?case by (intro piperead_inv)
next
  case (reach_close p w p')
  then show ?case by (simp add: pipeclose_inv)
qed

text \<open>
  C8. Whatever \<open>pipewrite\<close>, \<open>piperead\<close> and \<open>pipeclose\<close> calls a pipe has gone
  through since \<open>pipealloc\<close>, each time the lock is free the occupancy
  \<open>nwrite - nread\<close> (in \<open>uint\<close> arithmetic) is between 0 and \<open>PIPESIZE\<close>; the
  \<open>delta\<close> by which a copy step of \<open>pipewrite\<close> advances \<open>nwrite\<close> is at most the free
  space \<open>PIPESIZE - (nwrite - nread)\<close>, and the \<open>delta\<close> by which a copy step of
  \<open>piperead\<close> advances \<open>nread\<close> is at most the occupancy.
\<close>

theorem pipe_capacity:
  assumes "pipe_reach p"
  shows "0 \<le> uint (nwrite p - nread p) \<and> uint (nwrite p - nread p) \<le> uint PIPESIZE
       \<and> uint (pipewrite_delta p n i) \<le> uint PIPESIZE - uint (nwrite p - nread p)
       \<and> uint (piperead_delta p m j) \<le> uint (nwrite p - nread p)"
proof -
  have inv: "nwrite p - nread p \<le> PIPESIZE"
    using pipe_reach_inv[OF assms] by (simp add: pipe_inv_def)
  have "uint (pipewrite_delta p n i) \<le> uint (PIPESIZE - (nwrite p - nread p))"
    using pipewrite_delta_free[of p n i] by (simp add: word_le_def)
  moreover have "uint (PIPESIZE - (nwrite p - nread p)) = uint PIPESIZE - uint (nwrite p - nread p)"
    using inv by (simp add: uint_minus_simple_alt)
  moreover have "uint (piperead_delta p m j) \<le> uint (nwrite p - nread p)"
    using piperead_delta_avail[of p m j] by (simp add: word_le_def)
  ultimately show ?thesis using inv by (simp add: word_le_def)
qed

lemma pipewrite_fills:
  "pipe_of (pipewrite_loop (\<lambda>d off va len. (0, d)) (\<lambda>i. 0) (pipealloc []) 0 3000 0)
     = \<lparr>data = [], nread = 0, nwrite = 2048, readopen = 1, writeopen = 1\<rparr>"
  apply (simp add: pipealloc_def)
  apply (subst pipewrite_loop.simps)
  apply (simp add: PIPESIZE_def pipewrite_delta_def min_c_def word_sless_alt)
  apply (subst pipewrite_loop.simps)
  apply (simp add: PIPESIZE_def pipewrite_delta_def min_c_def word_sless_alt)
  done

theorem pipe_capacity_witness:
  "pipe_reach \<lparr>data = [], nread = 0, nwrite = 2048, readopen = 1, writeopen = 1\<rparr>
   \<and> uint (2048 - 0 :: 32 word) \<le> uint PIPESIZE
   \<and> uint (pipewrite_delta \<lparr>data = [], nread = 0, nwrite = 2048, readopen = 1, writeopen = 1\<rparr>
              3000 2048) \<le> uint PIPESIZE - uint (2048 - 0 :: 32 word)
   \<and> uint (piperead_delta \<lparr>data = [], nread = 0, nwrite = 2048, readopen = 1, writeopen = 1\<rparr>
              100 0) \<le> uint (2048 - 0 :: 32 word)"
proof -
  have r: "pipe_reach \<lparr>data = [], nread = 0, nwrite = 2048, readopen = 1, writeopen = 1\<rparr>"
    using reach_write[OF reach_alloc, of "\<lambda>d off va len. (0, d)" "\<lambda>i. 0" "[]" 0 3000 0]
    by (simp only: pipewrite_fills)
  show ?thesis
    using pipe_capacity[OF r, of 3000 2048 100 0] r by simp
qed

text \<open>
  C9. Once the write end is closed (\<open>writeopen == 0\<close>) and the buffer is empty
  (\<open>nread == nwrite\<close>), \<open>piperead\<close> returns 0 without sleeping and leaves the pipe
  as it is, so the same holds for every later \<open>piperead\<close>.
\<close>

theorem pipe_eof:
  assumes "writeopen p = 0" and "nread p = nwrite p"
  shows "piperead cout k p addr n = Return 0 p"
  using assms by (simp add: piperead_def piperead_loop.simps[of cout p addr n 0])

theorem pipe_eof_witness:
  "writeopen \<lparr>data = [], nread = 7, nwrite = 7, readopen = 1, writeopen = 0\<rparr> = 0
   \<and> nread \<lparr>data = [], nread = 7, nwrite = 7, readopen = 1, writeopen = 0\<rparr>
       = nwrite \<lparr>data = [], nread = 7, nwrite = 7, readopen = 1, writeopen = 0\<rparr>
   \<and> piperead (\<lambda>va bs. 0) 0 \<lparr>data = [], nread = 7, nwrite = 7, readopen = 1, writeopen = 0\<rparr> 0 100
       = Return 0 \<lparr>data = [], nread = 7, nwrite = 7, readopen = 1, writeopen = 0\<rparr>"
  using pipe_eof[of "\<lparr>data = [], nread = 7, nwrite = 7, readopen = 1, writeopen = 0\<rparr>"
                    "\<lambda>va bs. 0" 0 0 100]
  by simp

section \<open>Properties of the log\<close>


lemma active_slot_update [simp]: "active (slot_update a f s) = active s"
  by (simp add: slot_update_def)

lemma length_logs_slot_update [simp]: "length (logs (slot_update a f s)) = length (logs s)"
  by (simp add: slot_update_def)

text \<open>What \<open>wrap32\<close> does.\<close>

lemma wrap32_id: "- 2147483648 \<le> x \<Longrightarrow> x < 2147483648 \<Longrightarrow> wrap32 x = x"
  by (simp add: wrap32_def)

lemma wrap32_add_left: "wrap32 (wrap32 a + b) = wrap32 (a + b)"
proof -
  have "(wrap32 a + b + 2147483648) mod 4294967296 = (a + b + 2147483648) mod 4294967296"
    unfolding wrap32_def by (simp add: mod_simps algebra_simps)
  then show ?thesis by (simp add: wrap32_def)
qed

lemma wrap32_eq_iff: "wrap32 a = wrap32 b \<longleftrightarrow> (a - b) mod 4294967296 = 0"
proof -
  have "wrap32 a = wrap32 b
      \<longleftrightarrow> (a + 2147483648) mod 4294967296 = (b + 2147483648) mod 4294967296"
    by (simp add: wrap32_def)
  also have "\<dots> \<longleftrightarrow> ((a + 2147483648) - (b + 2147483648)) mod 4294967296 = 0"
    by (simp only: mod_eq_dvd_iff mod_0_imp_dvd dvd_eq_mod_eq_0)
  finally show ?thesis by simp
qed

lemma wrap32_add_right: "wrap32 (a + wrap32 b) = wrap32 (a + b)"
  using wrap32_add_left[of b a] by (simp add: add.commute)

lemma wrap32_Suc: "wrap32 (wrap32 (int n) + 1) = wrap32 (int (Suc n))"
  by (simp add: wrap32_add_left wrap32_add_right add.commute)

lemma wrap32_small [simp]:
  "wrap32 0 = 0" "wrap32 1 = 1" "wrap32 2 = 2" "wrap32 (- 1) = - 1"
  by (simp_all add: wrap32_def)

lemma slot_active_update [simp]: "slot (s\<lparr>active := a\<rparr>) i = slot s i"
  by (simp add: slot_def)

text \<open>
  When the second loop of \<open>begin_op\<close> ends, it has admitted the caller to a slot that
  is not committing, and \<open>active\<close> is that slot.
\<close>

lemma begin_op_loop_admits:
  assumes "begin_op_loop c s = Some y"
    and "0 < LOGCOPIES c" and "0 \<le> active s" and "active s < LOGCOPIES c"
  shows "\<exists>a. 0 \<le> a \<and> a < LOGCOPIES c
         \<and> y = slot_update a (\<lambda>l. l\<lparr>outstanding := wrap32 (outstanding l + 1)\<rparr>)
                 (s\<lparr>active := a\<rparr>)
         \<and> committing (slot s a) = 0"
proof -
  let ?Q = "\<lambda>c s y. 0 < LOGCOPIES c \<longrightarrow> 0 \<le> active s \<longrightarrow> active s < LOGCOPIES c \<longrightarrow>
      (\<exists>a. 0 \<le> a \<and> a < LOGCOPIES c
         \<and> y = slot_update a (\<lambda>l. l\<lparr>outstanding := wrap32 (outstanding l + 1)\<rparr>)
                 (s\<lparr>active := a\<rparr>)
         \<and> committing (slot s a) = 0)"
  have "?Q c s y"
  proof (rule begin_op_loop.raw_induct[where P = ?Q, OF _ assms(1)], intro impI)
    fix loop c s y
    assume IH: "\<And>c s y. loop c s = Some y \<Longrightarrow> ?Q c s y"
      and body: "(if committing (slot s (active s)) \<noteq> 0
                  then loop c (s\<lparr>active := wrap32 (active s + 1) mod LOGCOPIES c\<rparr>)
                  else if LOGSIZE c < wrap32 (lh_n (lh (slot s (active s)))
                              + wrap32 (wrap32 (outstanding (slot s (active s)) + 1)
                                          * MAXOPBLOCKS c))
                       then loop c (s\<lparr>active := wrap32 (active s + 1) mod LOGCOPIES c\<rparr>)
                       else Some (slot_update (active s)
                                   (\<lambda>l. l\<lparr>outstanding := wrap32 (outstanding l + 1)\<rparr>) s))
                 = Some y"
      and pos: "0 < LOGCOPIES c" and a0: "0 \<le> active s" and a1: "active s < LOGCOPIES c"
    let ?s' = "s\<lparr>active := wrap32 (active s + 1) mod LOGCOPIES c\<rparr>"
    have rng: "0 \<le> active ?s'" "active ?s' < LOGCOPIES c" using pos by simp_all
    show "\<exists>a. 0 \<le> a \<and> a < LOGCOPIES c
         \<and> y = slot_update a (\<lambda>l. l\<lparr>outstanding := wrap32 (outstanding l + 1)\<rparr>)
                 (s\<lparr>active := a\<rparr>)
         \<and> committing (slot s a) = 0"
    proof (cases "committing (slot s (active s)) \<noteq> 0
        \<or> LOGSIZE c < wrap32 (lh_n (lh (slot s (active s)))
                              + wrap32 (wrap32 (outstanding (slot s (active s)) + 1)
                                          * MAXOPBLOCKS c))")
      case True
      then have "loop c ?s' = Some y" using body by (auto split: if_splits)
      from IH[OF this] pos rng show ?thesis by simp
    next
      case False
      then have "y = slot_update (active s)
                       (\<lambda>l. l\<lparr>outstanding := wrap32 (outstanding l + 1)\<rparr>) s"
        using body by (auto split: if_splits)
      then show ?thesis using False a0 a1
        by (intro exI[of _ "active s"]) simp
    qed
  qed
  then show ?thesis using assms(2-4) by simp
qed

text \<open>
  C4 with slots of 100 blocks each, so that only \<open>LOGSIZE = 6\<close> bounds a header, and
  \<open>MAXOPBLOCKS = 2\<close>. Four processes call \<open>begin_op\<close>. Slot 0 admits three of them;
  for the fourth it is reserved up (\<open>0 + 4 * 2 > 6\<close>), so \<open>begin_op\<close> moves
  \<open>logs.active\<close> to slot 1 and admits it there. \<open>log_write\<close> takes
  \<open>logs.logs[logs.active]\<close>: the first process logs blocks 10 and 11, the second 20 and
  21, the third 30 and 31, two distinct blocks each, and all six go to slot 1, which
  admitted one transaction. When the fourth process logs its first block, 40, the header
  of slot 1 is full and \<open>log_write\<close> panics.
\<close>

theorem too_big_panic_after_active_moves:
  "map_option (map_sum id (\<lambda>s. (active s, map outstanding (logs s),
                                   map (\<lambda>l. lh_n (lh l)) (logs s))))
     (run_calls ex_param (ex_kernel 100) [Begin_op, Begin_op, Begin_op, Begin_op])
     = Some (Inr (1, [3, 1, 0, 0], [0, 0, 0, 0]))
   \<and> map_option (map_sum id (\<lambda>s. (active s, map outstanding (logs s),
                                   map (\<lambda>l. lh_n (lh l)) (logs s))))
     (run_calls ex_param (ex_kernel 100) [Begin_op, Begin_op, Begin_op, Begin_op,
        Log_write 10, Log_write 11, Log_write 20, Log_write 21, Log_write 30, Log_write 31])
     = Some (Inr (1, [3, 1, 0, 0], [0, 6, 0, 0]))
   \<and> MAXOPBLOCKS ex_param = 2 \<and> LOGSIZE ex_param = 6
   \<and> run_calls ex_param (ex_kernel 100) [Begin_op, Begin_op, Begin_op, Begin_op,
        Log_write 10, Log_write 11, Log_write 20, Log_write 21, Log_write 30, Log_write 31,
        Log_write 40]
     = Some (Inl Too_big_transaction)"
proof -
  have "map_option (map_sum id (\<lambda>s. (active s, map outstanding (logs s),
                                   map (\<lambda>l. lh_n (lh l)) (logs s))))
     (run_calls ex_param (ex_kernel 100) [Begin_op, Begin_op, Begin_op, Begin_op])
     = Some (Inr (1, [3, 1, 0, 0], [0, 0, 0, 0]))
   \<and> map_option (map_sum id (\<lambda>s. (active s, map outstanding (logs s),
                                   map (\<lambda>l. lh_n (lh l)) (logs s))))
     (run_calls ex_param (ex_kernel 100) [Begin_op, Begin_op, Begin_op, Begin_op,
        Log_write 10, Log_write 11, Log_write 20, Log_write 21, Log_write 30, Log_write 31])
     = Some (Inr (1, [3, 1, 0, 0], [0, 6, 0, 0]))
   \<and> MAXOPBLOCKS ex_param = 2 \<and> LOGSIZE ex_param = 6"
    by code_simp
  moreover have "case run_calls ex_param (ex_kernel 100) [Begin_op, Begin_op, Begin_op, Begin_op,
        Log_write 10, Log_write 11, Log_write 20, Log_write 21, Log_write 30, Log_write 31,
        Log_write 40] of Some (Inl p) \<Rightarrow> p = Too_big_transaction | _ \<Rightarrow> False"
    by code_simp
  then have "run_calls ex_param (ex_kernel 100) [Begin_op, Begin_op, Begin_op, Begin_op,
        Log_write 10, Log_write 11, Log_write 20, Log_write 21, Log_write 30, Log_write 31,
        Log_write 40]
     = Some (Inl Too_big_transaction)"
    by (auto split: option.splits sum.splits)
  ultimately show ?thesis by (simp only: simp_thms)
qed

text \<open>
  C5 in the same configuration. A process opens a transaction and logs block 100, which
  goes to slot 0. A second process is admitted to slot 0; for a third one slot 0 is
  reserved up (\<open>1 + 3 * 2 > 6\<close>) and \<open>begin_op\<close> moves \<open>logs.active\<close> to slot 1. The
  first process, still in its transaction, logs block 100 again: \<open>log_write\<close> searches
  the header of slot 1, does not find 100 there, and appends it. Block 100 now has an entry
  in two headers, and \<open>n\<close> has gone up twice, once in each.
\<close>

theorem absorption_lost_when_active_moves:
  "map_option (map_sum id (\<lambda>s. (active s, map (\<lambda>l. hdr_entries (lh l)) (logs s),
                                   map (\<lambda>l. lh_n (lh l)) (logs s))))
     (run_calls ex_param (ex_kernel 100) [Begin_op, Log_write 100])
     = Some (Inr (0, [[100], [], [], []], [1, 0, 0, 0]))
   \<and> map_option (map_sum id (\<lambda>s. (active s, map (\<lambda>l. hdr_entries (lh l)) (logs s),
                                   map (\<lambda>l. lh_n (lh l)) (logs s))))
     (run_calls ex_param (ex_kernel 100)
        [Begin_op, Log_write 100, Begin_op, Begin_op, Log_write 100])
     = Some (Inr (1, [[100], [100], [], []], [1, 1, 0, 0]))"
  by code_simp

lemma write_head_blocks_length [simp]:
  "length (write_head_blocks i k buf blk) = length buf"
proof (induction i k buf blk rule: write_head_blocks.induct)
  case (1 i k buf blk)
  then show ?case by (subst write_head_blocks.simps) simp
qed



lemma logs_write_head [simp]: "logs (write_head lognum s) = logs s"
  by (simp add: write_head_def Let_def bwrite_def)

lemma slot_write_head [simp]: "slot (write_head lognum s) i = slot s i"
  by (simp add: slot_def)




text \<open>
  C2 at slot 1 of the example (\<open>logstart = 2\<close>, \<open>size = 7\<close>): the slot's region starts
  at block \<open>9 = logstart + 1 * size\<close>, and \<open>write_head(1)\<close> leaves block 9 as it was and
  writes the header to block \<open>16 = start + 1 * size\<close>. \<open>read_head\<close> reads the header of slot 1
  back from block 16. For slot 3 the block is 44, beyond the log area, which ends at block
  \<open>29 = logstart + nlog - 1\<close>.
\<close>

theorem header_block_offset_doubled:
  "start (slot ex_sealed 1) = 9
   \<and> start (slot ex_sealed 3) + 3 * size_log (slot ex_sealed 3) = 44
   \<and> disk (write_head 1 ex_sealed) 1 9 = ex_block
   \<and> disk (write_head 1 ex_sealed) 1 16 = [1, 55, 0, 0, 0, 0, 0, 0, 0, 0, 0, 0, 0, 0, 0, 0]
   \<and> lh (slot (read_head_slot ex_param 1
               (slot_update 1 (\<lambda>l. l\<lparr>lh := ex_zero_lh\<rparr>) (write_head 1 ex_sealed))) 1)
       = \<lparr>lh_n = 1, lh_block = [55, 0, 0, 0, 0, 0], lh_seq_nbr = 0\<rparr>"
  by (simp add: ex_sealed_def ex_kernel_def ex_log_def ex_param_def ex_block_def ex_zero_lh_def
      slot_def slot_update_def write_head_def Let_def bread_def bwrite_def
      write_head_blocks.simps read_head_slot_def read_head_blocks.simps)






text \<open>
  C1 on the crash disk of the example. \<open>read_head\<close> finds \<open>n = 1\<close> in the headers of
  slots 0 and 3, and \<open>find_first_commit\<close> gives 3. The loop of \<open>recover_from_log\<close> runs
  \<open>i\<close> from 3 while \<open>i < LOGCOPIES\<close>: it visits slot 3 alone, installs block 60 and clears
  that header. Slot 0 is never reached: block 50 is not installed, and the header of slot
  0 still has \<open>n = 1\<close>, on disk and in memory.
\<close>

theorem recovery_skips_wrapped_slot:
  "map (\<lambda>l. lh_n (lh l)) (logs (read_head ex_param ex_crashed)) = [1, 0, 0, 1]
   \<and> find_first_commit ex_param (read_head ex_param ex_crashed) = Inr 3
   \<and> initlog ex_param (\<lambda>i. ex_log 0 0) ex_crash_disk 1 \<lparr>nlog = 28, logstart = 2\<rparr>
       = recover_from_log ex_param ex_crashed
   \<and> isl (recover_from_log ex_param ex_crashed) = False
   \<and> fst (projr (recover_from_log ex_param ex_crashed)) = [3]
   \<and> disk (snd (projr (recover_from_log ex_param ex_crashed))) 1 60
       = [7, 7, 7, 7, 7, 7, 7, 7, 7, 7, 7, 7, 7, 7, 7, 7]
   \<and> disk (snd (projr (recover_from_log ex_param ex_crashed))) 1 44
       = [0, 60, 0, 0, 0, 0, 0, 0, 0, 0, 0, 0, 0, 0, 0, 0]
   \<and> disk (snd (projr (recover_from_log ex_param ex_crashed))) 1 50 = ex_block
   \<and> disk (snd (projr (recover_from_log ex_param ex_crashed))) 1 2
       = [1, 50, 0, 0, 0, 0, 0, 0, 0, 0, 0, 0, 0, 0, 0, 0]
   \<and> map (\<lambda>l. lh_n (lh l)) (logs (snd (projr (recover_from_log ex_param ex_crashed))))
       = [1, 0, 0, 0]"
proof -
  have boot: "initlog ex_param (\<lambda>i. ex_log 0 0) ex_crash_disk 1 \<lparr>nlog = 28, logstart = 2\<rparr>
       = recover_from_log ex_param ex_crashed"
    by (simp add: initlog_def ex_param_def ex_kernel_def ex_log_def ex_crashed_def Let_def upt_rec)
  have "map (\<lambda>l. lh_n (lh l)) (logs (read_head ex_param ex_crashed)) = [1, 0, 0, 1]
   \<and> find_first_commit ex_param (read_head ex_param ex_crashed) = Inr 3
   \<and> isl (recover_from_log ex_param ex_crashed) = False
   \<and> fst (projr (recover_from_log ex_param ex_crashed)) = [3]
   \<and> disk (snd (projr (recover_from_log ex_param ex_crashed))) 1 60
       = [7, 7, 7, 7, 7, 7, 7, 7, 7, 7, 7, 7, 7, 7, 7, 7]
   \<and> disk (snd (projr (recover_from_log ex_param ex_crashed))) 1 44
       = [0, 60, 0, 0, 0, 0, 0, 0, 0, 0, 0, 0, 0, 0, 0, 0]
   \<and> disk (snd (projr (recover_from_log ex_param ex_crashed))) 1 50 = ex_block
   \<and> disk (snd (projr (recover_from_log ex_param ex_crashed))) 1 2
       = [1, 50, 0, 0, 0, 0, 0, 0, 0, 0, 0, 0, 0, 0, 0, 0]
   \<and> map (\<lambda>l. lh_n (lh l)) (logs (snd (projr (recover_from_log ex_param ex_crashed))))
       = [1, 0, 0, 0]"
    by code_simp
  then show ?thesis using boot by (simp only: simp_thms)
qed

text \<open>
  C3 with \<open>LOGCOPIES = 2\<close> and both slots sealed, so that
  \<open>copies_committed == LOGCOPIES\<close>: \<open>begin_op\<close> does not sleep, since 2 is not 4, and
  its second loop then finds no slot to admit to and runs for ever. With \<open>LOGCOPIES = 8\<close>
  and \<open>copies_committed == 4\<close> it sleeps although four slots are free.
\<close>

theorem begin_op_hardcoded_four:
  "copies_committed ex2_kernel = LOGCOPIES ex2_param
   \<and> begin_op ex2_param ex2_kernel \<noteq> Some Sleep_logs
   \<and> begin_op ex2_param ex2_kernel = None
   \<and> copies_committed ((ex_kernel 7)\<lparr>copies_committed := 4\<rparr>) \<noteq> LOGCOPIES (ex_param\<lparr>LOGCOPIES := 8\<rparr>)
   \<and> begin_op (ex_param\<lparr>LOGCOPIES := 8\<rparr>) ((ex_kernel 7)\<lparr>copies_committed := 4\<rparr>) = Some Sleep_logs"
proof -
  have "begin_op_loop ex2_param ex2_kernel = None"
  proof (rule ccontr)
    assume "begin_op_loop ex2_param ex2_kernel \<noteq> None"
    then obtain y where y: "begin_op_loop ex2_param ex2_kernel = Some y" by auto
    have "0 < LOGCOPIES ex2_param" "0 \<le> active ex2_kernel" "active ex2_kernel < LOGCOPIES ex2_param"
      by (simp_all add: ex2_param_def ex2_kernel_def)
    from begin_op_loop_admits[OF y this] obtain a where
      a: "0 \<le> a" "a < LOGCOPIES ex2_param" "committing (slot ex2_kernel a) = 0" by auto
    then have "a = 0 \<or> a = 1" by (auto simp: ex2_param_def)
    then show False using a(3) by (auto simp: ex2_kernel_def slot_def ex_log_def)
  qed
  then have "begin_op ex2_param ex2_kernel = None"
    by (simp add: begin_op_def ex2_kernel_def)
  moreover have "copies_committed ex2_kernel = LOGCOPIES ex2_param"
    by (simp add: ex2_kernel_def ex2_param_def)
  moreover have "begin_op (ex_param\<lparr>LOGCOPIES := 8\<rparr>) ((ex_kernel 7)\<lparr>copies_committed := 4\<rparr>) = Some Sleep_logs"
    by (simp add: begin_op_def)
  moreover have "copies_committed ((ex_kernel 7)\<lparr>copies_committed := 4\<rparr>) \<noteq> LOGCOPIES (ex_param\<lparr>LOGCOPIES := 8\<rparr>)"
    by simp
  ultimately show ?thesis by simp
qed

text \<open>
  C7 with \<open>LOGCOPIES = 4\<close>: six system calls in a row from the idle state, each sealing
  slot 0 in its \<open>end_op\<close>. The sixth stamps \<open>lh.seq_nbr = 5\<close>, which is above
  \<open>LOGCOPIES\<close>, and \<open>logs.seq_nbr\<close> is 6.
\<close>

theorem seq_nbr_unbounded:
  "LOGCOPIES ex_param = 4
   \<and> map_option (\<lambda>s. (map (\<lambda>l. lh_seq_nbr (lh l)) (logs s), seq_nbr s, copies_committed s))
        (run_txns ex_param 6 (ex_kernel 7)) = Some ([5, - 1, - 1, - 1], 6, 0)"
  by code_simp



section \<open>The order of installs\<close>

lemma ctl_eq_refl [simp]: "ctl_eq k k"
  by (simp add: ctl_eq_def)

lemma ctl_eq_trans: "ctl_eq a b \<Longrightarrow> ctl_eq b d \<Longrightarrow> ctl_eq a d"
  by (simp add: ctl_eq_def)

lemma slot_slot_update_other:
  "nat i \<noteq> nat t \<Longrightarrow> slot (slot_update i f s) t = slot s t"
  by (simp add: slot_def slot_update_def)

lemma slot_slot_update_gen:
  "slot (slot_update i f s) t =
     (if nat t = nat i \<and> nat i < length (logs s) then f (slot s i) else slot s t)"
proof (cases "nat i < length (logs s)")
  case True
  then show ?thesis by (auto simp: slot_def slot_update_def)
next
  case False
  then have "(logs s)[nat i := f (logs s ! nat i)] = logs s" by (simp add: list_update_beyond)
  then show ?thesis using False by (simp add: slot_def slot_update_def)
qed

lemma ctl_eq_slot_update:
  assumes "committing (f (slot s i)) = committing (slot s i)"
    and "lh_seq_nbr (lh (f (slot s i))) = lh_seq_nbr (lh (slot s i))"
  shows "ctl_eq s (slot_update i f s)"
proof -
  have "committing (slot (slot_update i f s) t) = committing (slot s t)
      \<and> seq_of (slot_update i f s) t = seq_of s t" for t
  proof (cases "nat t = nat i \<and> nat i < length (logs s)")
    case True
    then have e: "slot s t = slot s i" by (simp add: slot_def)
    have "slot (slot_update i f s) t = f (slot s i)"
      using True by (simp add: slot_slot_update_gen)
    then show ?thesis using assms by (simp add: seq_of_def e)
  next
    case False
    then have "slot (slot_update i f s) t = slot s t"
      by (auto simp: slot_slot_update_gen)
    then show ?thesis by (simp add: seq_of_def)
  qed
  moreover have "length (logs (slot_update i f s)) = length (logs s)"
      "active (slot_update i f s) = active s"
      "copies_committed (slot_update i f s) = copies_committed s"
      "seq_nbr (slot_update i f s) = seq_nbr s"
    by (simp_all add: slot_update_def)
  ultimately show ?thesis unfolding ctl_eq_def by blast
qed

lemma slot_bwrite [simp]: "slot (bwrite d b blk s) t = slot s t"
  by (simp add: slot_def bwrite_def)

lemma ctl_eq_bwrite: "ctl_eq s (bwrite d b blk s)"
  by (simp add: ctl_eq_def seq_of_def) (simp add: bwrite_def)

lemma ctl_eq_write_head: "ctl_eq s (write_head lognum s)"
  by (simp add: write_head_def Let_def ctl_eq_bwrite)

lemma ctl_eq_install_trans_loop: "ctl_eq s (install_trans_loop l tail s)"
proof (induction l tail s rule: install_trans_loop.induct)
  case (1 l tail s)
  show ?case
  proof (cases "tail < lh_n (lh l)")
    case True
    let ?s1 = "bwrite (dev l) (lh_block (lh l) ! nat tail) (bread s (dev l) (start l + tail + 1)) s"
    have "ctl_eq s ?s1" by (rule ctl_eq_bwrite)
    moreover have "ctl_eq ?s1 (install_trans_loop l (tail + 1) ?s1)"
      using "1.IH"[OF True refl] .
    ultimately have "ctl_eq s (install_trans_loop l (tail + 1) ?s1)" by (rule ctl_eq_trans)
    then show ?thesis using True
      by (subst install_trans_loop.simps) (simp add: Let_def)
  next
    case False
    then show ?thesis by (subst install_trans_loop.simps) simp
  qed
qed

lemma ctl_eq_write_log_loop: "ctl_eq s (write_log_loop l tail s)"
proof (induction l tail s rule: write_log_loop.induct)
  case (1 l tail s)
  show ?case
  proof (cases "tail < lh_n (lh l)")
    case True
    let ?s1 = "bwrite (dev l) (start l + tail + 1) (bread s (dev l) (lh_block (lh l) ! nat tail)) s"
    have "ctl_eq s ?s1" by (rule ctl_eq_bwrite)
    moreover have "ctl_eq ?s1 (write_log_loop l (tail + 1) ?s1)"
      using "1.IH"[OF True refl] .
    ultimately have "ctl_eq s (write_log_loop l (tail + 1) ?s1)" by (rule ctl_eq_trans)
    then show ?thesis using True
      by (subst write_log_loop.simps) (simp add: Let_def)
  next
    case False
    then show ?thesis by (subst write_log_loop.simps) simp
  qed
qed

lemma ctl_eq_commit: "ctl_eq s (commit lognum s)"
proof (cases "lh_n (lh (slot s lognum)) > 0")
  case False
  then show ?thesis by (simp add: commit_def)
next
  case True
  let ?s1 = "write_log lognum s"
  let ?s2 = "write_head lognum ?s1"
  let ?s3 = "install_trans 0 lognum ?s2"
  let ?s4 = "slot_update lognum (\<lambda>l. l\<lparr>lh := (lh l)\<lparr>lh_n := 0\<rparr>\<rparr>) ?s3"
  have "ctl_eq s ?s1" by (simp add: write_log_def ctl_eq_write_log_loop)
  moreover have "ctl_eq ?s1 ?s2" by (rule ctl_eq_write_head)
  moreover have "ctl_eq ?s2 ?s3" by (simp add: install_trans_def ctl_eq_install_trans_loop)
  moreover have "ctl_eq ?s3 ?s4" by (rule ctl_eq_slot_update) simp_all
  moreover have "ctl_eq ?s4 (write_head lognum ?s4)" by (rule ctl_eq_write_head)
  ultimately have "ctl_eq s (write_head lognum ?s4)" by (meson ctl_eq_trans)
  then show ?thesis using True by (simp add: commit_def Let_def)
qed

lemma log_write_Inr:
  assumes "log_write c s b = Inr s'"
  shows "\<exists>h. s' = slot_update (active s) (\<lambda>l. l\<lparr>lh := h\<rparr>) s
           \<and> lh_seq_nbr h = lh_seq_nbr (lh (slot s (active s)))"
proof -
  let ?log = "slot s (active s)"
  let ?i = "log_write_find (lh_block (lh ?log)) (lh_n (lh ?log)) b 0"
  let ?h1 = "(lh ?log)\<lparr>lh_block := (lh_block (lh ?log))[nat ?i := b]\<rparr>"
  let ?h2 = "if ?i = lh_n (lh ?log) then ?h1\<lparr>lh_n := wrap32 (lh_n ?h1 + 1)\<rparr> else ?h1"
  have ok: "\<not> (lh_n (lh ?log) \<ge> LOGSIZE c \<or> lh_n (lh ?log) \<ge> wrap32 (size_log ?log - 1))"
      "\<not> outstanding ?log < 1"
    using assms by (simp_all add: log_write_def Let_def split: if_splits)
  then have "log_write c s b = Inr (slot_update (active s) (\<lambda>l. l\<lparr>lh := ?h2\<rparr>) s)"
    by (simp add: log_write_def Let_def)
  then have "s' = slot_update (active s) (\<lambda>l. l\<lparr>lh := ?h2\<rparr>) s" using assms by simp
  moreover have "lh_seq_nbr ?h2 = lh_seq_nbr (lh ?log)" by simp
  ultimately show ?thesis by blast
qed

lemma ctl_eq_log_write: "log_write c s b = Inr s' \<Longrightarrow> ctl_eq s s'"
proof -
  assume "log_write c s b = Inr s'"
  from log_write_Inr[OF this] obtain h where
    h: "s' = slot_update (active s) (\<lambda>l. l\<lparr>lh := h\<rparr>) s"
       "lh_seq_nbr h = lh_seq_nbr (lh (slot s (active s)))" by blast
  show ?thesis unfolding h(1) by (rule ctl_eq_slot_update) (simp_all add: h(2))
qed

lemma ordered_snoc_other:
  assumes "ordered tr" and "\<And>k q. e \<noteq> Install_begin k q"
  shows "ordered (tr @ [e])"
  unfolding ordered_def
proof (intro allI impI)
  fix j k q
  assume j: "j < length (tr @ [e])" and ev: "(tr @ [e]) ! j = Install_begin k q"
  have jl: "j < length tr"
  proof (rule ccontr)
    assume "\<not> j < length tr"
    then have "j = length tr" using j by simp
    then show False using ev assms(2) by simp
  qed
  then have "tr ! j = Install_begin k q" using ev by (simp add: nth_append)
  with assms(1) jl have q: "q = wrap32 (int k)"
    and o: "\<forall>k1<k. \<exists>i<j. tr ! i = Install_end k1 (wrap32 (int k1))"
    unfolding ordered_def by blast+
  have "\<exists>i<j. (tr @ [e]) ! i = Install_end k1 (wrap32 (int k1))" if "k1 < k" for k1
  proof -
    from o that obtain i where "i < j" "tr ! i = Install_end k1 (wrap32 (int k1))" by blast
    then show ?thesis using jl by (auto simp: nth_append intro!: exI[of _ i])
  qed
  then show "q = wrap32 (int k)
      \<and> (\<forall>k1<k. \<exists>i<j. (tr @ [e]) ! i = Install_end k1 (wrap32 (int k1)))"
    using q by blast
qed

lemma ordered_snoc_begin:
  assumes "ordered tr" and "\<forall>k1<k. Install_end k1 (wrap32 (int k1)) \<in> set tr"
  shows "ordered (tr @ [Install_begin k (wrap32 (int k))])"
  unfolding ordered_def
proof (intro allI impI)
  fix j k' q
  let ?tr' = "tr @ [Install_begin k (wrap32 (int k))]"
  assume j: "j < length ?tr'" and ev: "?tr' ! j = Install_begin k' q"
  show "q = wrap32 (int k')
      \<and> (\<forall>k1<k'. \<exists>i<j. ?tr' ! i = Install_end k1 (wrap32 (int k1)))"
  proof (cases "j < length tr")
    case True
    then have "tr ! j = Install_begin k' q" using ev by (simp add: nth_append)
    with assms(1) True have q: "q = wrap32 (int k')"
      and o: "\<forall>k1<k'. \<exists>i<j. tr ! i = Install_end k1 (wrap32 (int k1))"
      unfolding ordered_def by blast+
    have "\<exists>i<j. ?tr' ! i = Install_end k1 (wrap32 (int k1))" if "k1 < k'" for k1
    proof -
      from o that obtain i where "i < j" "tr ! i = Install_end k1 (wrap32 (int k1))" by blast
      then show ?thesis using True by (auto simp: nth_append intro!: exI[of _ i])
    qed
    then show ?thesis using q by blast
  next
    case False
    then have jl: "j = length tr" using j by simp
    then have e: "k' = k" "q = wrap32 (int k)" using ev by auto
    have "\<exists>i<j. ?tr' ! i = Install_end k1 (wrap32 (int k1))" if "k1 < k'" for k1
    proof -
      from assms(2) that e(1) have "Install_end k1 (wrap32 (int k1)) \<in> set tr" by simp
      then obtain i where "i < length tr" "tr ! i = Install_end k1 (wrap32 (int k1))"
        by (auto simp: in_set_conv_nth)
      then show ?thesis using jl by (auto simp: nth_append intro!: exI[of _ i])
    qed
    then show ?thesis using e by blast
  qed
qed

lemma sys_inv_boot:
  assumes "booted c k" and "0 < LOGCOPIES c"
  shows "sys_inv c \<lparr>ker = k, sealed = {}, installing = {}, seals = 0, tx = (\<lambda>t. 0), trace = []\<rparr>"
  using assms by (simp add: sys_inv_def booted_def lo_of_def ordered_def wrap32_def)

lemma sys_invD:
  assumes "sys_inv c \<sigma>"
  shows "length (logs (ker \<sigma>)) = nat (LOGCOPIES c)"
    and "0 \<le> active (ker \<sigma>)" and "active (ker \<sigma>) < LOGCOPIES c"
    and "0 \<le> copies_committed (ker \<sigma>)"
    and "nat (copies_committed (ker \<sigma>)) \<le> seals \<sigma>"
    and "seq_nbr (ker \<sigma>) = wrap32 (int (seals \<sigma>))"
    and "sealed \<sigma> \<inter> installing \<sigma> = {}"
    and "\<And>t. t \<in> sealed \<sigma> \<union> installing \<sigma> \<Longrightarrow>
            0 \<le> t \<and> t < LOGCOPIES c \<and> committing (slot (ker \<sigma>) t) \<noteq> 0
            \<and> seq_of (ker \<sigma>) t = wrap32 (int (tx \<sigma> t))"
    and "inj_on (tx \<sigma>) (sealed \<sigma> \<union> installing \<sigma>)"
    and "tx \<sigma> ` (sealed \<sigma> \<union> installing \<sigma>) = {lo_of \<sigma> ..< seals \<sigma>}"
    and "\<And>t. t \<in> installing \<sigma> \<Longrightarrow> tx \<sigma> t = lo_of \<sigma>"
    and "\<And>k. k < lo_of \<sigma> \<Longrightarrow> Install_end k (wrap32 (int k)) \<in> set (trace \<sigma>)"
    and "\<And>k q. Seal k q \<in> set (trace \<sigma>) \<Longrightarrow> q = wrap32 (int k)"
    and "ordered (trace \<sigma>)"
  using assms unfolding sys_inv_def by blast+

lemma sys_invI:
  assumes "length (logs (ker \<sigma>)) = nat (LOGCOPIES c)"
    and "0 \<le> active (ker \<sigma>)" and "active (ker \<sigma>) < LOGCOPIES c"
    and "0 \<le> copies_committed (ker \<sigma>)"
    and "nat (copies_committed (ker \<sigma>)) \<le> seals \<sigma>"
    and "seq_nbr (ker \<sigma>) = wrap32 (int (seals \<sigma>))"
    and "sealed \<sigma> \<inter> installing \<sigma> = {}"
    and "\<And>t. t \<in> sealed \<sigma> \<union> installing \<sigma> \<Longrightarrow>
            0 \<le> t \<and> t < LOGCOPIES c \<and> committing (slot (ker \<sigma>) t) \<noteq> 0
            \<and> seq_of (ker \<sigma>) t = wrap32 (int (tx \<sigma> t))"
    and "inj_on (tx \<sigma>) (sealed \<sigma> \<union> installing \<sigma>)"
    and "tx \<sigma> ` (sealed \<sigma> \<union> installing \<sigma>) = {lo_of \<sigma> ..< seals \<sigma>}"
    and "\<And>t. t \<in> installing \<sigma> \<Longrightarrow> tx \<sigma> t = lo_of \<sigma>"
    and "\<And>k. k < lo_of \<sigma> \<Longrightarrow> Install_end k (wrap32 (int k)) \<in> set (trace \<sigma>)"
    and "\<And>k q. Seal k q \<in> set (trace \<sigma>) \<Longrightarrow> q = wrap32 (int k)"
    and "ordered (trace \<sigma>)"
  shows "sys_inv c \<sigma>"
  using assms unfolding sys_inv_def by blast

lemma sys_inv_ctl:
  assumes "sys_inv c \<sigma>" and "ctl_eq (ker \<sigma>) k'"
  shows "sys_inv c (\<sigma>\<lparr>ker := k'\<rparr>)"
proof -
  have e: "seq_of k' = seq_of (ker \<sigma>)" "\<And>t. committing (slot k' t) = committing (slot (ker \<sigma>) t)"
      "length (logs k') = length (logs (ker \<sigma>))" "active k' = active (ker \<sigma>)"
      "copies_committed k' = copies_committed (ker \<sigma>)" "seq_nbr k' = seq_nbr (ker \<sigma>)"
    using assms(2) by (auto simp: ctl_eq_def)
  show ?thesis using assms(1) unfolding sys_inv_def lo_of_def by (simp add: e)
qed

lemma sys_inv_active:
  assumes "sys_inv c \<sigma>" and "0 \<le> a" and "a < LOGCOPIES c"
  shows "sys_inv c (\<sigma>\<lparr>ker := (ker \<sigma>)\<lparr>active := a\<rparr>\<rparr>)"
proof -
  have "seq_of ((ker \<sigma>)\<lparr>active := a\<rparr>) = seq_of (ker \<sigma>)"
    by (rule ext) (simp add: seq_of_def slot_def)
  then show ?thesis using assms unfolding sys_inv_def lo_of_def by (simp add: slot_def)
qed

lemma sys_inv_begin:
  assumes "sys_inv c \<sigma>" and "0 < LOGCOPIES c" and "begin_op c (ker \<sigma>) = Some (Admitted k')"
  shows "sys_inv c (\<sigma>\<lparr>ker := k'\<rparr>)"
proof -
  from assms(3) have lp: "begin_op_loop c (ker \<sigma>) = Some k'"
    by (auto simp: begin_op_def split: if_splits)
  from begin_op_loop_admits[OF lp assms(2) sys_invD(2,3)[OF assms(1)]] obtain a where
    a: "0 \<le> a" "a < LOGCOPIES c"
       "k' = slot_update a (\<lambda>l. l\<lparr>outstanding := wrap32 (outstanding l + 1)\<rparr>)
               ((ker \<sigma>)\<lparr>active := a\<rparr>)"
    by blast
  let ?\<sigma>1 = "\<sigma>\<lparr>ker := (ker \<sigma>)\<lparr>active := a\<rparr>\<rparr>"
  have i1: "sys_inv c ?\<sigma>1" by (rule sys_inv_active[OF assms(1) a(1,2)])
  have "ctl_eq (ker ?\<sigma>1) k'" unfolding a(3) by (simp, rule ctl_eq_slot_update) simp_all
  from sys_inv_ctl[OF i1 this] show ?thesis by simp
qed

lemma sys_inv_write:
  assumes "sys_inv c \<sigma>" and "log_write c (ker \<sigma>) b = Inr k'"
  shows "sys_inv c (\<sigma>\<lparr>ker := k'\<rparr>)"
  using sys_inv_ctl[OF assms(1) ctl_eq_log_write[OF assms(2)]] .

lemma end_op_seal_cases:
  assumes "end_op_seal s = Inr (t, k')"
  shows "(t = - 1 \<and> k' = slot_update (active s) (\<lambda>l. l\<lparr>outstanding := wrap32 (outstanding l - 1)\<rparr>) s)
       \<or> (t = active s
          \<and> committing (slot (slot_update (active s)
                                 (\<lambda>l. l\<lparr>outstanding := wrap32 (outstanding l - 1)\<rparr>) s)
                           (active s)) = 0
          \<and> k' = (slot_update (active s)
                     (\<lambda>l. l\<lparr>committing := 1, lh := (lh l)\<lparr>lh_seq_nbr := seq_nbr s\<rparr>\<rparr>)
                     (slot_update (active s)
                        (\<lambda>l. l\<lparr>outstanding := wrap32 (outstanding l - 1)\<rparr>) s))
                  \<lparr>seq_nbr := wrap32 (seq_nbr s + 1),
                    copies_committed := wrap32 (copies_committed s + 1)\<rparr>)"
proof -
  have [simp]: "seq_nbr (slot_update i f s) = seq_nbr s"
      "copies_committed (slot_update i f s) = copies_committed s" for i f
    by (simp_all add: slot_update_def)
  show ?thesis using assms
    by (auto simp: end_op_seal_def Let_def split: if_splits)
qed

lemma sys_inv_end:
  assumes "sys_inv c \<sigma>" and "end_op_seal (ker \<sigma>) = Inr (t, k')" and "t < 0"
  shows "sys_inv c (\<sigma>\<lparr>ker := k'\<rparr>)"
proof -
  from end_op_seal_cases[OF assms(2)] assms(3) sys_invD(2)[OF assms(1)]
  have "k' = slot_update (active (ker \<sigma>)) (\<lambda>l. l\<lparr>outstanding := wrap32 (outstanding l - 1)\<rparr>) (ker \<sigma>)"
    by auto
  then have "ctl_eq (ker \<sigma>) k'" by (simp add: ctl_eq_slot_update)
  from sys_inv_ctl[OF assms(1) this] show ?thesis .
qed

lemma slot_counters [simp]:
  "slot (s\<lparr>seq_nbr := x\<rparr>) u = slot s u"
  "slot (s\<lparr>copies_committed := y\<rparr>) u = slot s u"
  by (simp_all add: slot_def)

lemma sys_inv_card:
  assumes "sys_inv c \<sigma>"
  shows "finite (sealed \<sigma> \<union> installing \<sigma>)"
    and "card (sealed \<sigma> \<union> installing \<sigma>) = nat (copies_committed (ker \<sigma>))"
    and "sealed \<sigma> \<union> installing \<sigma> \<subseteq> {0 ..< LOGCOPIES c}"
proof -
  note D = sys_invD[OF assms]
  show sub: "sealed \<sigma> \<union> installing \<sigma> \<subseteq> {0 ..< LOGCOPIES c}"
    using D(8) by auto
  then show "finite (sealed \<sigma> \<union> installing \<sigma>)" by (rule finite_subset) simp
  have "card (sealed \<sigma> \<union> installing \<sigma>) = card (tx \<sigma> ` (sealed \<sigma> \<union> installing \<sigma>))"
    using D(9) by (simp add: card_image)
  also have "\<dots> = seals \<sigma> - lo_of \<sigma>" by (simp add: D(10))
  also have "\<dots> = nat (copies_committed (ker \<sigma>))" using D(5) by (simp add: lo_of_def)
  finally show "card (sealed \<sigma> \<union> installing \<sigma>) = nat (copies_committed (ker \<sigma>))" .
qed

lemma sys_inv_cc_le:
  assumes "sys_inv c \<sigma>" and "0 < LOGCOPIES c"
  shows "copies_committed (ker \<sigma>) \<le> LOGCOPIES c"
proof -
  note C = sys_inv_card[OF assms(1)]
  have "card (sealed \<sigma> \<union> installing \<sigma>) \<le> card {0 ..< LOGCOPIES c}"
    by (rule card_mono[OF _ C(3)]) simp
  then have "nat (copies_committed (ker \<sigma>)) \<le> nat (LOGCOPIES c)" using C(2) by simp
  then show ?thesis using sys_invD(4)[OF assms(1)] assms(2) by arith
qed

lemma sys_inv_seal:
  assumes inv: "sys_inv c \<sigma>" and e: "end_op_seal (ker \<sigma>) = Inr (t, k')" and t0: "0 \<le> t"
    and L: "0 < LOGCOPIES c" "LOGCOPIES c < 2147483648"
  shows "sys_inv c (\<sigma>\<lparr>ker := k', sealed := insert t (sealed \<sigma>),
                      seals := Suc (seals \<sigma>), tx := (tx \<sigma>)(t := seals \<sigma>),
                      trace := trace \<sigma> @ [Seal (seals \<sigma>) (lh_seq_nbr (lh (slot k' t)))]\<rparr>)"
proof -
  let ?k = "ker \<sigma>"
  let ?a = "active ?k"
  let ?W = "sealed \<sigma> \<union> installing \<sigma>"
  let ?cc = "copies_committed ?k"
  let ?s1 = "slot_update ?a (\<lambda>l. l\<lparr>outstanding := wrap32 (outstanding l - 1)\<rparr>) ?k"
  let ?\<sigma>' = "\<sigma>\<lparr>ker := k', sealed := insert t (sealed \<sigma>),
                      seals := Suc (seals \<sigma>), tx := (tx \<sigma>)(t := seals \<sigma>),
                      trace := trace \<sigma> @ [Seal (seals \<sigma>) (lh_seq_nbr (lh (slot k' t)))]\<rparr>"
  note D = sys_invD[OF inv]
  note C = sys_inv_card[OF inv]
  from end_op_seal_cases[OF e] t0 have ta: "t = ?a"
    and c0: "committing (slot ?s1 ?a) = 0"
    and k': "k' = (slot_update ?a (\<lambda>l. l\<lparr>committing := 1, lh := (lh l)\<lparr>lh_seq_nbr := seq_nbr ?k\<rparr>\<rparr>) ?s1)
                  \<lparr>seq_nbr := wrap32 (seq_nbr ?k + 1), copies_committed := wrap32 (?cc + 1)\<rparr>"
    by auto
  have rng: "nat ?a < length (logs ?k)" using D(1,2,3) by simp
  have len1: "length (logs ?s1) = length (logs ?k)" by (simp add: slot_update_def)
  have c0': "committing (slot ?k ?a) = 0" using c0 rng by (simp add: slot_slot_update_gen)
  have notW: "?a \<notin> ?W" using D(8)[of ?a] c0' by blast
  have sl: "slot k' u = (if nat u = nat ?a
                         then (slot ?k ?a)\<lparr>outstanding := wrap32 (outstanding (slot ?k ?a) - 1),
                                  committing := 1,
                                  lh := (lh (slot ?k ?a))\<lparr>lh_seq_nbr := seq_nbr ?k\<rparr>\<rparr>
                         else slot ?k u)" for u
    using rng len1 by (simp add: k' slot_slot_update_gen)
  have seq': "seq_of k' u = (if nat u = nat ?a then seq_nbr ?k else seq_of ?k u)" for u
    by (simp add: seq_of_def sl)
  have com': "committing (slot k' u) = (if nat u = nat ?a then 1 else committing (slot ?k u))" for u
    by (simp add: sl)
  have natW: "nat u \<noteq> nat ?a" if "u \<in> ?W" for u
  proof
    assume "nat u = nat ?a"
    moreover have "0 \<le> u" using D(8)[OF that] by simp
    ultimately have "u = ?a" using D(2) by arith
    then show False using notW that by simp
  qed
  have card_lt: "card ?W < nat (LOGCOPIES c)"
  proof -
    have "insert ?a ?W \<subseteq> {0 ..< LOGCOPIES c}" using C(3) D(2,3) by simp
    then have "card (insert ?a ?W) \<le> card {0 ..< LOGCOPIES c}"
      by (intro card_mono) simp_all
    then show ?thesis using notW C(1) by simp
  qed
  then have cc_lt: "?cc < LOGCOPIES c" using C(2) D(4) by simp
  have cc': "wrap32 (?cc + 1) = ?cc + 1"
    using D(4) cc_lt L(2) by (intro wrap32_id) simp_all
  have sq': "wrap32 (seq_nbr ?k + 1) = wrap32 (int (Suc (seals \<sigma>)))"
    by (simp add: D(6) wrap32_add_left wrap32_add_right add.commute)
  have fld: "length (logs k') = length (logs ?k)" "active k' = ?a"
      "copies_committed k' = ?cc + 1" "seq_nbr k' = wrap32 (int (Suc (seals \<sigma>)))"
    by (simp_all add: k' slot_update_def cc' sq')
  have lo: "lo_of ?\<sigma>' = lo_of \<sigma>"
    using D(4,5) by (simp add: lo_of_def fld nat_add_distrib)
  have lo_le: "lo_of \<sigma> \<le> seals \<sigma>" by (simp add: lo_of_def)
  have W': "sealed ?\<sigma>' \<union> installing ?\<sigma>' = insert ?a ?W" by (simp add: ta)
  have txW: "tx ?\<sigma>' u = tx \<sigma> u" if "u \<in> ?W" for u
    using that notW by (auto simp: ta)
  have img: "tx ?\<sigma>' ` ?W = {lo_of \<sigma> ..< seals \<sigma>}"
    using D(10) txW by (metis (no_types, lifting) image_cong)
  have txa: "tx ?\<sigma>' ?a = seals \<sigma>" by (simp add: ta)
  show ?thesis
  proof (rule sys_invI)
    show "length (logs (ker ?\<sigma>')) = nat (LOGCOPIES c)" using D(1) by (simp add: fld)
    show "0 \<le> active (ker ?\<sigma>')" using D(2) by (simp add: fld)
    show "active (ker ?\<sigma>') < LOGCOPIES c" using D(3) by (simp add: fld)
    show "0 \<le> copies_committed (ker ?\<sigma>')" using D(4) by (simp add: fld)
    show "nat (copies_committed (ker ?\<sigma>')) \<le> seals ?\<sigma>'"
      using D(4,5) by (simp add: fld nat_add_distrib)
    show "seq_nbr (ker ?\<sigma>') = wrap32 (int (seals ?\<sigma>'))" by (simp add: fld)
    show "sealed ?\<sigma>' \<inter> installing ?\<sigma>' = {}" using D(7) notW by (simp add: ta)
    show "0 \<le> u \<and> u < LOGCOPIES c \<and> committing (slot (ker ?\<sigma>') u) \<noteq> 0
            \<and> seq_of (ker ?\<sigma>') u = wrap32 (int (tx ?\<sigma>' u))"
      if "u \<in> sealed ?\<sigma>' \<union> installing ?\<sigma>'" for u
    proof (cases "u = ?a")
      case True
      then show ?thesis using D(2,3,6) by (simp add: com' seq' ta)
    next
      case False
      then have uW: "u \<in> ?W" using that by (simp add: ta)
      have "tx ?\<sigma>' u = tx \<sigma> u" by (rule txW[OF uW])
      then show ?thesis using D(8)[OF uW] natW[OF uW] by (simp add: com' seq')
    qed
    have "inj_on (tx ?\<sigma>') ?W"
      using D(9) txW by (simp add: inj_on_def)
    moreover have "tx ?\<sigma>' ?a \<notin> tx ?\<sigma>' ` ?W"
      unfolding img txa by simp
    ultimately have "inj_on (tx ?\<sigma>') (insert ?a ?W)"
      by (auto simp: inj_on_insert)
    then show "inj_on (tx ?\<sigma>') (sealed ?\<sigma>' \<union> installing ?\<sigma>')"
      unfolding W' .
    have "tx ?\<sigma>' ` (insert ?a ?W) = insert (seals \<sigma>) {lo_of \<sigma> ..< seals \<sigma>}"
      by (simp only: image_insert img txa)
    also have "\<dots> = {lo_of \<sigma> ..< Suc (seals \<sigma>)}" using lo_le by auto
    finally show "tx ?\<sigma>' ` (sealed ?\<sigma>' \<union> installing ?\<sigma>') = {lo_of ?\<sigma>' ..< seals ?\<sigma>'}"
      unfolding W' lo by simp
    show "tx ?\<sigma>' u = lo_of ?\<sigma>'" if "u \<in> installing ?\<sigma>'" for u
    proof -
      have "u \<in> ?W" using that by simp
      from txW[OF this] D(11)[of u] that show ?thesis by (simp add: lo)
    qed
    show "Install_end k (wrap32 (int k)) \<in> set (trace ?\<sigma>')" if "k < lo_of ?\<sigma>'" for k
      using that D(12)[of k] by (simp add: lo)
    show "q = wrap32 (int k)" if "Seal k q \<in> set (trace ?\<sigma>')" for k q
    proof (cases "Seal k q \<in> set (trace \<sigma>)")
      case True
      then show ?thesis by (rule D(13))
    next
      case False
      then have "k = seals \<sigma>" "q = lh_seq_nbr (lh (slot k' t))" using that by auto
      then show ?thesis using seq'[of ?a] D(6) by (simp add: seq_of_def ta)
    qed
    show "ordered (trace ?\<sigma>')"
      using ordered_snoc_other[OF D(14), of "Seal (seals \<sigma>) (lh_seq_nbr (lh (slot k' t)))"]
      by simp
  qed
qed

lemma turn_is_lowest:
  assumes inv: "sys_inv c \<sigma>" and t: "t \<in> sealed \<sigma> \<union> installing \<sigma>"
    and turn: "end_op_turn t (ker \<sigma>)"
    and L: "0 < LOGCOPIES c" "LOGCOPIES c < 2147483648"
  shows "tx \<sigma> t = lo_of \<sigma>"
proof -
  let ?cc = "copies_committed (ker \<sigma>)"
  note D = sys_invD[OF inv]
  have sq: "seq_of (ker \<sigma>) t = wrap32 (int (tx \<sigma> t))" using D(8)[OF t] by simp
  have "wrap32 (wrap32 (int (tx \<sigma> t)) + ?cc) = wrap32 (int (seals \<sigma>))"
    using turn sq D(6) by (simp add: end_op_turn_def seq_of_def)
  then have "wrap32 (int (tx \<sigma> t) + ?cc) = wrap32 (int (seals \<sigma>))"
    by (simp add: wrap32_add_left)
  then have m: "(int (tx \<sigma> t) + ?cc - int (seals \<sigma>)) mod 4294967296 = 0"
    by (simp add: wrap32_eq_iff)
  have "tx \<sigma> t \<in> {lo_of \<sigma> ..< seals \<sigma>}" using D(10) t by blast
  then have b: "lo_of \<sigma> \<le> tx \<sigma> t" "tx \<sigma> t < seals \<sigma>" by simp_all
  have lo: "int (lo_of \<sigma>) = int (seals \<sigma>) - ?cc" using D(4,5) by (simp add: lo_of_def)
  have cc: "?cc \<le> LOGCOPIES c" by (rule sys_inv_cc_le[OF inv L(1)])
  let ?d = "int (tx \<sigma> t) + ?cc - int (seals \<sigma>)"
  have "0 \<le> ?d" "?d < 4294967296" using b lo cc L(2) by linarith+
  then have "?d mod 4294967296 = ?d" by simp
  then have "?d = 0" using m by simp
  then show ?thesis using lo by linarith
qed

lemma installing_only:
  assumes inv: "sys_inv c \<sigma>" and "t \<in> sealed \<sigma> \<union> installing \<sigma>"
    and "tx \<sigma> t = lo_of \<sigma>"
  shows "installing \<sigma> \<subseteq> {t}"
proof
  fix u assume u: "u \<in> installing \<sigma>"
  note D = sys_invD[OF inv]
  have "tx \<sigma> u = tx \<sigma> t" using D(11)[OF u] assms(3) by simp
  moreover have "u \<in> sealed \<sigma> \<union> installing \<sigma>" using u by simp
  ultimately have "u = t" using D(9) assms(2) by (meson inj_onD)
  then show "u \<in> {t}" by simp
qed

lemma sys_inv_turn:
  assumes inv: "sys_inv c \<sigma>" and t: "t \<in> sealed \<sigma>" and turn: "end_op_turn t (ker \<sigma>)"
    and L: "0 < LOGCOPIES c" "LOGCOPIES c < 2147483648"
  shows "sys_inv c (\<sigma>\<lparr>sealed := sealed \<sigma> - {t}, installing := insert t (installing \<sigma>),
                      trace := trace \<sigma>
                        @ [Install_begin (tx \<sigma> t) (lh_seq_nbr (lh (slot (ker \<sigma>) t)))]\<rparr>)"
proof -
  let ?k = "ker \<sigma>"
  let ?\<sigma>' = "\<sigma>\<lparr>sealed := sealed \<sigma> - {t}, installing := insert t (installing \<sigma>),
                      trace := trace \<sigma>
                        @ [Install_begin (tx \<sigma> t) (lh_seq_nbr (lh (slot (ker \<sigma>) t)))]\<rparr>"
  note D = sys_invD[OF inv]
  have tW: "t \<in> sealed \<sigma> \<union> installing \<sigma>" using t by simp
  have st: "tx \<sigma> t = lo_of \<sigma>" by (rule turn_is_lowest[OF inv tW turn L])
  have sq: "lh_seq_nbr (lh (slot ?k t)) = wrap32 (int (lo_of \<sigma>))"
    using D(8)[OF tW] st by (simp add: seq_of_def)
  have "installing \<sigma> \<subseteq> {t}" using installing_only[OF inv tW st] .
  moreover have "t \<notin> installing \<sigma>" using D(7) t by blast
  ultimately have none: "installing \<sigma> = {}" by blast
  have W: "sealed ?\<sigma>' \<union> installing ?\<sigma>' = sealed \<sigma> \<union> installing \<sigma>"
    using t by auto
  have lo: "lo_of ?\<sigma>' = lo_of \<sigma>" by (simp add: lo_of_def)
  show ?thesis
  proof (rule sys_invI)
    show "length (logs (ker ?\<sigma>')) = nat (LOGCOPIES c)" using D(1) by simp
    show "0 \<le> active (ker ?\<sigma>')" using D(2) by simp
    show "active (ker ?\<sigma>') < LOGCOPIES c" using D(3) by simp
    show "0 \<le> copies_committed (ker ?\<sigma>')" using D(4) by simp
    show "nat (copies_committed (ker ?\<sigma>')) \<le> seals ?\<sigma>'" using D(5) by simp
    show "seq_nbr (ker ?\<sigma>') = wrap32 (int (seals ?\<sigma>'))" using D(6) by simp
    show "sealed ?\<sigma>' \<inter> installing ?\<sigma>' = {}" using none by simp
    show "0 \<le> u \<and> u < LOGCOPIES c \<and> committing (slot (ker ?\<sigma>') u) \<noteq> 0
            \<and> seq_of (ker ?\<sigma>') u = wrap32 (int (tx ?\<sigma>' u))"
      if "u \<in> sealed ?\<sigma>' \<union> installing ?\<sigma>'" for u
      using that D(8)[of u] unfolding W by simp
    show "inj_on (tx ?\<sigma>') (sealed ?\<sigma>' \<union> installing ?\<sigma>')"
      unfolding W using D(9) by simp
    show "tx ?\<sigma>' ` (sealed ?\<sigma>' \<union> installing ?\<sigma>') = {lo_of ?\<sigma>' ..< seals ?\<sigma>'}"
      unfolding W lo using D(10) by simp
    show "tx ?\<sigma>' u = lo_of ?\<sigma>'" if "u \<in> installing ?\<sigma>'" for u
    proof -
      have "u = t" using that none by simp
      then show ?thesis using st by (simp add: lo_of_def)
    qed
    show "Install_end k (wrap32 (int k)) \<in> set (trace ?\<sigma>')" if "k < lo_of ?\<sigma>'" for k
      using that D(12)[of k] by (simp add: lo)
    show "q = wrap32 (int k)" if "Seal k q \<in> set (trace ?\<sigma>')" for k q
      using that D(13)[of k q] by simp
    have "ordered (trace \<sigma> @ [Install_begin (lo_of \<sigma>) (wrap32 (int (lo_of \<sigma>)))])"
      by (rule ordered_snoc_begin[OF D(14)]) (simp add: D(12))
    then show "ordered (trace ?\<sigma>')" by (simp add: st sq)
  qed
qed

lemma sys_inv_finish:
  assumes inv: "sys_inv c \<sigma>" and t: "t \<in> installing \<sigma>"
    and L: "0 < LOGCOPIES c" "LOGCOPIES c < 2147483648"
  shows "sys_inv c (\<sigma>\<lparr>ker := end_op_finish t (commit t (ker \<sigma>)),
                      installing := installing \<sigma> - {t},
                      trace := trace \<sigma>
                        @ [Install_end (tx \<sigma> t) (lh_seq_nbr (lh (slot (ker \<sigma>) t)))]\<rparr>)"
proof -
  let ?k = "ker \<sigma>"
  let ?kc = "commit t ?k"
  let ?k' = "end_op_finish t ?kc"
  let ?cc = "copies_committed ?k"
  let ?\<sigma>' = "\<sigma>\<lparr>ker := ?k', installing := installing \<sigma> - {t},
                      trace := trace \<sigma>
                        @ [Install_end (tx \<sigma> t) (lh_seq_nbr (lh (slot (ker \<sigma>) t)))]\<rparr>"
  note D = sys_invD[OF inv]
  have tW: "t \<in> sealed \<sigma> \<union> installing \<sigma>" using t by simp
  have st: "tx \<sigma> t = lo_of \<sigma>" using D(11)[OF t] .
  have sqt: "lh_seq_nbr (lh (slot ?k t)) = wrap32 (int (lo_of \<sigma>))"
    using D(8)[OF tW] st by (simp add: seq_of_def)
  have only: "installing \<sigma> = {t}" using installing_only[OF inv tW st] t by blast
  have tns: "t \<notin> sealed \<sigma>" using D(7) t by blast
  have W: "sealed \<sigma> \<union> installing \<sigma> = insert t (sealed \<sigma>)" using only by simp
  have W': "sealed ?\<sigma>' \<union> installing ?\<sigma>' = sealed \<sigma>" using only by simp
  have ce: "ctl_eq ?k ?kc" by (rule ctl_eq_commit)
  have kc: "length (logs ?kc) = length (logs ?k)" "active ?kc = active ?k"
      "copies_committed ?kc = ?cc" "seq_nbr ?kc = seq_nbr ?k"
      "\<And>u. committing (slot ?kc u) = committing (slot ?k u)" "\<And>u. seq_of ?kc u = seq_of ?k u"
    using ce by (simp_all add: ctl_eq_def)
  have "lo_of \<sigma> \<in> {lo_of \<sigma> ..< seals \<sigma>}"
    using D(10) st tW by (metis imageI)
  then have lo_lt: "lo_of \<sigma> < seals \<sigma>" by simp
  then have cc1: "1 \<le> ?cc" by (simp add: lo_of_def)
  have ccL: "?cc \<le> LOGCOPIES c" by (rule sys_inv_cc_le[OF inv L(1)])
  have ccw: "wrap32 (?cc - 1) = ?cc - 1"
    using cc1 ccL L(2) by (intro wrap32_id) simp_all
  have fld: "length (logs ?k') = length (logs ?k)" "active ?k' = active ?k"
      "copies_committed ?k' = ?cc - 1" "seq_nbr ?k' = seq_nbr ?k"
    by (simp_all add: end_op_finish_def slot_update_def kc ccw)
  have sq: "seq_of ?k' u = seq_of ?k u" for u
  proof -
    have "lh (slot ?k' u) = lh (slot ?kc u)"
      by (simp add: end_op_finish_def slot_slot_update_gen) (simp add: slot_def)
    then show ?thesis using kc(6)[of u] by (simp add: seq_of_def)
  qed
  have cm: "committing (slot ?k' u) = committing (slot ?k u)" if "nat u \<noteq> nat t" for u
    using that kc(5)[of u] by (simp add: end_op_finish_def slot_slot_update_gen)
  have lo: "lo_of ?\<sigma>' = Suc (lo_of \<sigma>)"
    using cc1 D(5) by (simp add: lo_of_def fld; arith)
  show ?thesis
  proof (rule sys_invI)
    show "length (logs (ker ?\<sigma>')) = nat (LOGCOPIES c)" using D(1) by (simp add: fld)
    show "0 \<le> active (ker ?\<sigma>')" using D(2) by (simp add: fld)
    show "active (ker ?\<sigma>') < LOGCOPIES c" using D(3) by (simp add: fld)
    show "0 \<le> copies_committed (ker ?\<sigma>')" using cc1 by (simp add: fld)
    show "nat (copies_committed (ker ?\<sigma>')) \<le> seals ?\<sigma>'" using D(5) by (simp add: fld)
    show "seq_nbr (ker ?\<sigma>') = wrap32 (int (seals ?\<sigma>'))" using D(6) by (simp add: fld)
    show "sealed ?\<sigma>' \<inter> installing ?\<sigma>' = {}" using only by simp
    show "0 \<le> u \<and> u < LOGCOPIES c \<and> committing (slot (ker ?\<sigma>') u) \<noteq> 0
            \<and> seq_of (ker ?\<sigma>') u = wrap32 (int (tx ?\<sigma>' u))"
      if "u \<in> sealed ?\<sigma>' \<union> installing ?\<sigma>'" for u
    proof -
      have us: "u \<in> sealed \<sigma>" using that unfolding W' .
      then have b: "0 \<le> u \<and> u < LOGCOPIES c \<and> committing (slot ?k u) \<noteq> 0
          \<and> seq_of ?k u = wrap32 (int (tx \<sigma> u))"
        using D(8)[of u] by simp
      have "u \<noteq> t" using us tns by blast
      moreover have "0 \<le> t" using D(8)[OF tW] by simp
      ultimately have "nat u \<noteq> nat t" using b by arith
      then show ?thesis using b cm[of u] by (simp add: sq)
    qed
    have inj: "inj_on (tx \<sigma>) (insert t (sealed \<sigma>))" using D(9) unfolding W .
    then show "inj_on (tx ?\<sigma>') (sealed ?\<sigma>' \<union> installing ?\<sigma>')"
      unfolding W' by (simp add: inj_on_insert)
    have "tx \<sigma> ` (insert t (sealed \<sigma>)) = {lo_of \<sigma> ..< seals \<sigma>}" using D(10) unfolding W .
    then have a: "insert (lo_of \<sigma>) (tx \<sigma> ` sealed \<sigma>) = {lo_of \<sigma> ..< seals \<sigma>}"
      by (simp only: image_insert st)
    have "tx \<sigma> t \<notin> tx \<sigma> ` sealed \<sigma>"
      using inj tns by (simp add: inj_on_insert)
    then have b: "lo_of \<sigma> \<notin> tx \<sigma> ` sealed \<sigma>" using st by simp
    from a b have "tx \<sigma> ` sealed \<sigma> = {lo_of \<sigma> ..< seals \<sigma>} - {lo_of \<sigma>}"
      by (metis Diff_insert_absorb)
    also have "\<dots> = {Suc (lo_of \<sigma>) ..< seals \<sigma>}" by auto
    finally show "tx ?\<sigma>' ` (sealed ?\<sigma>' \<union> installing ?\<sigma>') = {lo_of ?\<sigma>' ..< seals ?\<sigma>'}"
      unfolding W' lo by simp
    show "tx ?\<sigma>' u = lo_of ?\<sigma>'" if "u \<in> installing ?\<sigma>'" for u
      using that only by simp
    show "Install_end k (wrap32 (int k)) \<in> set (trace ?\<sigma>')" if "k < lo_of ?\<sigma>'" for k
    proof (cases "k < lo_of \<sigma>")
      case True
      then show ?thesis using D(12)[of k] by simp
    next
      case False
      then have "k = lo_of \<sigma>" using that lo by simp
      then show ?thesis by (simp add: st sqt)
    qed
    show "q = wrap32 (int k)" if "Seal k q \<in> set (trace ?\<sigma>')" for k q
      using that D(13)[of k q] by simp
    show "ordered (trace ?\<sigma>')"
      using ordered_snoc_other[OF D(14),
          of "Install_end (tx \<sigma> t) (lh_seq_nbr (lh (slot (ker \<sigma>) t)))"]
      by simp
  qed
qed

lemma reach_inv:
  assumes "reach c \<sigma>" and "0 < LOGCOPIES c" and "LOGCOPIES c < 2147483648"
  shows "sys_inv c \<sigma>"
  using assms(1)
proof (induction rule: reach.induct)
  case (reach_boot k)
  then show ?case using assms(2) by (simp add: sys_inv_boot)
next
  case (reach_step \<sigma> \<sigma>')
  from reach_step.hyps(2) reach_step.IH show ?case
  proof (cases rule: step.cases)
    case (step_begin k')
    then show ?thesis using sys_inv_begin[OF reach_step.IH assms(2)] by simp
  next
    case (step_write b k')
    then show ?thesis using sys_inv_write[OF reach_step.IH] by simp
  next
    case (step_end t k')
    then show ?thesis using sys_inv_end[OF reach_step.IH] by simp
  next
    case (step_seal t k')
    then show ?thesis using sys_inv_seal[OF reach_step.IH _ _ assms(2,3)] by simp
  next
    case (step_turn t)
    then show ?thesis using sys_inv_turn[OF reach_step.IH _ _ assms(2,3)] by simp
  next
    case (step_finish t)
    then show ?thesis using sys_inv_finish[OF reach_step.IH _ assms(2,3)] by simp
  qed
qed

text \<open>
  C6, as amended. Take any state the system reaches from boot, with \<open>LOGCOPIES\<close> a
  positive \<open>int\<close>. Let \<open>T1\<close> be a committed transaction, the one sealed as number
  \<open>k1\<close> with \<open>q1\<close> stamped into its header, and let the committer of \<open>T2\<close>, sealed
  as number \<open>k2\<close> with \<open>q2\<close> in its header, have left the waiting loop of
  \<open>end_op\<close> at moment \<open>j\<close> (it is about to call \<open>commit\<close>). If \<open>q1 < q2\<close>, and
  \<open>logs.seq_nbr\<close> did not overflow between the two seals, so that the two sequence
  numbers differ by the number of seals between them, then the committer of \<open>T1\<close> had
  returned from \<open>commit\<close> and taken the lock again before moment \<open>j\<close>: the install of
  \<open>T1\<close> ends before the install of \<open>T2\<close> begins. A committer leaves the loop only when
  \<open>lh.seq_nbr + copies_committed == seq_nbr\<close> holds for its slot (\<open>step_turn\<close>).
  The sequence number of a transaction is its number wrapped to 32 bits, which is why
  the sequence numbers follow the order of sealing only from one overflow to the next.
\<close>

theorem install_order:
  assumes "reach c \<sigma>" and "0 < LOGCOPIES c" and "LOGCOPIES c < 2147483648"
    and "Seal k1 q1 \<in> set (trace \<sigma>)"
    and "j < length (trace \<sigma>)" and "trace \<sigma> ! j = Install_begin k2 q2"
    and "q1 < q2" and "q2 - q1 = int k2 - int k1"
  shows "(\<exists>i < j. trace \<sigma> ! i = Install_end k1 q1)
       \<and> q1 = wrap32 (int k1) \<and> q2 = wrap32 (int k2)"
proof -
  note D = sys_invD[OF reach_inv[OF assms(1-3)]]
  have q1: "q1 = wrap32 (int k1)" using D(13)[OF assms(4)] .
  have "k1 < k2" using assms(7,8) by linarith
  moreover have "q2 = wrap32 (int k2)
      \<and> (\<forall>k<k2. \<exists>i<j. trace \<sigma> ! i = Install_end k (wrap32 (int k)))"
    using D(14) assms(5,6) unfolding ordered_def by blast
  ultimately show ?thesis using q1 by blast
qed

text \<open>
  The run of the example that ends in \<open>ex_two\<close>: \<open>begin_op\<close> and the first stretch
  of \<open>end_op\<close> for slot 0, the same for slot 1 while slot 0 waits, then the install of
  slot 0 from its beginning to its end, then the beginning of the install of slot 1.
\<close>

lemma ex_begin0:
  "begin_op ex_param (ex_run (0, 0, sq) x1 0 pool 0)
     = Some (Admitted (ex_run (1, 0, sq) x1 0 pool 0))"
  by (simp add: begin_op_def begin_op_loop.simps ex_run_def ex_slot_def ex_param_def ex_log_def
      slot_def slot_update_def wrap32_def)

lemma ex_begin1:
  "cc \<noteq> 4 \<Longrightarrow> begin_op ex_param (ex_run (o0, 1, q0) (0, 0, sq) 0 pool cc)
     = Some (Admitted (ex_run (o0, 1, q0) (1, 0, sq) 1 pool cc))"
  by (simp add: begin_op_def begin_op_loop.simps ex_run_def ex_slot_def ex_param_def ex_log_def
      slot_def slot_update_def wrap32_def)

lemma ex_seal0:
  "end_op_seal (ex_run (1, 0, sq) x1 0 pool cc)
     = Inr (0, ex_run (0, 1, pool) x1 0 (wrap32 (pool + 1)) (wrap32 (cc + 1)))"
  by (simp add: end_op_seal_def Let_def ex_run_def ex_slot_def ex_log_def slot_def
      slot_update_def wrap32_def)

lemma ex_seal1:
  "end_op_seal (ex_run x0 (1, 0, sq) 1 pool cc)
     = Inr (1, ex_run x0 (0, 1, pool) 1 (wrap32 (pool + 1)) (wrap32 (cc + 1)))"
  by (simp add: end_op_seal_def Let_def ex_run_def ex_slot_def ex_log_def slot_def
      slot_update_def wrap32_def)

lemma ex_turn0:
  "wrap32 (sq + cc) = pool \<Longrightarrow> end_op_turn 0 (ex_run (o0, c0, sq) x1 act pool cc)"
  by (simp add: end_op_turn_def ex_run_def ex_slot_def ex_log_def slot_def)

lemma ex_turn1:
  "wrap32 (sq + cc) = pool \<Longrightarrow> end_op_turn 1 (ex_run x0 (o1, c1, sq) act pool cc)"
  by (simp add: end_op_turn_def ex_run_def ex_slot_def ex_log_def slot_def)

lemma ex_finish0:
  "end_op_finish 0 (commit 0 (ex_run (o0, c0, sq) x1 act pool cc))
     = ex_run (o0, 0, sq) x1 act pool (wrap32 (cc - 1))"
  by (simp add: end_op_finish_def commit_def ex_run_def ex_slot_def ex_log_def
      slot_def slot_update_def)

lemma ex_seq0: "lh_seq_nbr (lh (slot (ex_run (o0, c0, sq) x1 act pool cc) 0)) = sq"
  by (simp add: ex_run_def ex_slot_def ex_log_def slot_def)

lemma ex_seq1: "lh_seq_nbr (lh (slot (ex_run x0 (o1, c1, sq) act pool cc) 1)) = sq"
  by (simp add: ex_run_def ex_slot_def ex_log_def slot_def)

lemma ex_booted: "booted ex_param (ex_run (0, 0, - 1) (0, 0, - 1) 0 0 0)"
  by (simp add: booted_def ex_run_def ex_param_def)

lemma ex_two_reach: "reach ex_param ex_two"
proof -
  have r0: "reach ex_param \<lparr>ker = ex_run (0, 0, - 1) (0, 0, - 1) 0 0 0, sealed = {},
              installing = {}, seals = 0, tx = (\<lambda>t. 0), trace = []\<rparr>"
    by (rule reach_boot) (rule ex_booted)
  have r1: "reach ex_param \<lparr>ker = ex_run (1, 0, - 1) (0, 0, - 1) 0 0 0, sealed = {},
              installing = {}, seals = 0, tx = (\<lambda>t. 0), trace = []\<rparr>"
    using reach_step[OF r0 step_begin[of ex_param _ "ex_run (1, 0, - 1) (0, 0, - 1) 0 0 0"]]
    by (simp add: ex_begin0)
  have r2: "reach ex_param \<lparr>ker = ex_run (0, 1, 0) (0, 0, - 1) 0 1 1, sealed = {0},
              installing = {}, seals = 1, tx = (\<lambda>t. 0)(0 := 0), trace = [Seal 0 0]\<rparr>"
    using reach_step[OF r1 step_seal[of _ 0 "ex_run (0, 1, 0) (0, 0, - 1) 0 1 1" ex_param]]
      ex_seal0[of "- 1" "(0, 0, - 1)" 0 0]
    by (simp add: ex_seq0)
  have r3: "reach ex_param \<lparr>ker = ex_run (0, 1, 0) (1, 0, - 1) 1 1 1, sealed = {0},
              installing = {}, seals = 1, tx = (\<lambda>t. 0)(0 := 0), trace = [Seal 0 0]\<rparr>"
    using reach_step[OF r2 step_begin[of ex_param _ "ex_run (0, 1, 0) (1, 0, - 1) 1 1 1"]]
    by (simp add: ex_begin1)
  have r4: "reach ex_param \<lparr>ker = ex_run (0, 1, 0) (0, 1, 1) 1 2 2, sealed = {0, 1},
              installing = {}, seals = 2, tx = (\<lambda>t. 0)(0 := 0, 1 := 1),
              trace = [Seal 0 0, Seal 1 1]\<rparr>"
    using reach_step[OF r3 step_seal[of _ 1 "ex_run (0, 1, 0) (0, 1, 1) 1 2 2" ex_param]]
      ex_seal1[of "(0, 1, 0)" "- 1" 1 1]
    by (simp add: ex_seq1 insert_commute numeral_2_eq_2)
  have r5: "reach ex_param \<lparr>ker = ex_run (0, 1, 0) (0, 1, 1) 1 2 2, sealed = {1},
              installing = {0}, seals = 2, tx = (\<lambda>t. 0)(0 := 0, 1 := 1),
              trace = [Seal 0 0, Seal 1 1, Install_begin 0 0]\<rparr>"
    using reach_step[OF r4 step_turn[of 0 _ ex_param]] ex_turn0[of 0 2 2 0 1 "(0, 1, 1)" 1]
    by (simp add: ex_seq0)
  have r6: "reach ex_param \<lparr>ker = ex_run (0, 0, 0) (0, 1, 1) 1 2 1, sealed = {1},
              installing = {}, seals = 2, tx = (\<lambda>t. 0)(0 := 0, 1 := 1),
              trace = [Seal 0 0, Seal 1 1, Install_begin 0 0, Install_end 0 0]\<rparr>"
    using reach_step[OF r5 step_finish[of 0 _ ex_param]]
    by (simp add: ex_seq0 ex_finish0)
  show ?thesis
    unfolding ex_two_def
    using reach_step[OF r6 step_turn[of 1 _ ex_param]] ex_turn1[of 1 1 2 "(0, 0, 0)" 0 1 1]
    by (simp add: ex_seq1)
qed

theorem install_order_witness:
  "reach ex_param ex_two
   \<and> 0 < LOGCOPIES ex_param \<and> LOGCOPIES ex_param < 2147483648
   \<and> Seal 0 0 \<in> set (trace ex_two)
   \<and> 4 < length (trace ex_two)
   \<and> trace ex_two ! 4 = Install_begin 1 1
   \<and> (0 :: int) < 1 \<and> (1 :: int) - 0 = int 1 - int 0
   \<and> (\<exists>i < 4. trace ex_two ! i = Install_end 0 0)
   \<and> (0 :: int) = wrap32 (int 0) \<and> (1 :: int) = wrap32 (int 1)"
proof -
  have p: "0 < LOGCOPIES ex_param" "LOGCOPIES ex_param < 2147483648"
    by (simp_all add: ex_param_def)
  have h: "Seal 0 0 \<in> set (trace ex_two)" "4 < length (trace ex_two)"
      "trace ex_two ! 4 = Install_begin 1 1" "(0 :: int) < 1" "(1 :: int) - 0 = int 1 - int 0"
    by (simp_all add: ex_two_def)
  from install_order[OF ex_two_reach p h] ex_two_reach p h
  show ?thesis by (simp only: simp_thms)
qed

lemma run_trace_Suc:
  "run_trace (Suc n) = run_trace n @ [Seal n (wrap32 (int n)), Install_begin n (wrap32 (int n)),
                                       Install_end n (wrap32 (int n))]"
  by (simp add: run_trace_def)

lemma length_run_trace [simp]: "length (run_trace n) = 3 * n"
  by (induction n) (simp_all add: run_trace_Suc, simp add: run_trace_def)

lemma run_trace_begin:
  "k < n \<Longrightarrow> run_trace n ! (3 * k + 1) = Install_begin k (wrap32 (int k))"
proof (induction n)
  case 0
  then show ?case by simp
next
  case (Suc n)
  show ?case
  proof (cases "k < n")
    case True
    then show ?thesis using Suc.IH by (simp add: run_trace_Suc nth_append)
  next
    case False
    then have "k = n" using Suc.prems by simp
    then show ?thesis by (simp add: run_trace_Suc nth_append)
  qed
qed

lemma run_trace_end: "Install_end k q \<in> set (run_trace n) \<Longrightarrow> k < n"
  by (induction n) (auto simp: run_trace_Suc run_trace_def)

lemma ex_idle_reach: "reach ex_param (ex_idle n)"
proof (induction n)
  case 0
  have "ex_idle 0 = \<lparr>ker = ex_run (0, 0, - 1) (0, 0, - 1) 0 0 0, sealed = {}, installing = {},
                      seals = 0, tx = (\<lambda>t. 0), trace = []\<rparr>"
    by (simp add: ex_idle_def run_trace_def fun_eq_iff)
  then show ?case using reach_boot[OF ex_booted] by simp
next
  case (Suc n)
  let ?v = "wrap32 (int n - 1)"
  let ?w = "wrap32 (int n)"
  let ?p = "wrap32 (?w + 1)"
  have r0: "reach ex_param \<lparr>ker = ex_run (0, 0, ?v) (0, 0, - 1) 0 ?w 0, sealed = {},
              installing = {}, seals = n, tx = (\<lambda>t. 0)(0 := n - 1), trace = run_trace n\<rparr>"
    using Suc by (simp add: ex_idle_def)
  have r1: "reach ex_param \<lparr>ker = ex_run (1, 0, ?v) (0, 0, - 1) 0 ?w 0, sealed = {},
              installing = {}, seals = n, tx = (\<lambda>t. 0)(0 := n - 1), trace = run_trace n\<rparr>"
    using reach_step[OF r0 step_begin[of ex_param _ "ex_run (1, 0, ?v) (0, 0, - 1) 0 ?w 0"]]
    by (simp add: ex_begin0)
  have r2: "reach ex_param \<lparr>ker = ex_run (0, 1, ?w) (0, 0, - 1) 0 ?p 1, sealed = {0},
              installing = {}, seals = Suc n, tx = (\<lambda>t. 0)(0 := n),
              trace = run_trace n @ [Seal n ?w]\<rparr>"
    using reach_step[OF r1 step_seal[of _ 0 "ex_run (0, 1, ?w) (0, 0, - 1) 0 ?p 1" ex_param]]
      ex_seal0[of ?v "(0, 0, - 1)" ?w 0]
    by (simp add: ex_seq0)
  have r3: "reach ex_param \<lparr>ker = ex_run (0, 1, ?w) (0, 0, - 1) 0 ?p 1, sealed = {},
              installing = {0}, seals = Suc n, tx = (\<lambda>t. 0)(0 := n),
              trace = run_trace n @ [Seal n ?w, Install_begin n ?w]\<rparr>"
    using reach_step[OF r2 step_turn[of 0 _ ex_param]] ex_turn0[of ?w 1 ?p 0 1 "(0, 0, - 1)" 0]
    by (simp add: ex_seq0)
  have r4: "reach ex_param \<lparr>ker = ex_run (0, 0, ?w) (0, 0, - 1) 0 ?p 0, sealed = {},
              installing = {}, seals = Suc n, tx = (\<lambda>t. 0)(0 := n),
              trace = run_trace n @ [Seal n ?w, Install_begin n ?w, Install_end n ?w]\<rparr>"
    using reach_step[OF r3 step_finish[of 0 _ ex_param]]
    by (simp add: ex_seq0 ex_finish0)
  have "ex_idle (Suc n) = \<lparr>ker = ex_run (0, 0, ?w) (0, 0, - 1) 0 ?p 0, sealed = {},
              installing = {}, seals = Suc n, tx = (\<lambda>t. 0)(0 := n),
              trace = run_trace n @ [Seal n ?w, Install_begin n ?w, Install_end n ?w]\<rparr>"
    unfolding ex_idle_def wrap32_Suc run_trace_Suc by simp
  then show ?case using r4 by simp
qed

lemma run_trace_end_nth:
  "k < n \<Longrightarrow> run_trace n ! (3 * k + 2) = Install_end k (wrap32 (int k))"
proof (induction n)
  case 0
  then show ?case by simp
next
  case (Suc n)
  show ?case
  proof (cases "k < n")
    case True
    then show ?thesis using Suc.IH by (simp add: run_trace_Suc nth_append)
  next
    case False
    then have "k = n" using Suc.prems by simp
    then show ?thesis by (simp add: run_trace_Suc nth_append)
  qed
qed

lemma run_trace_seal: "k < n \<Longrightarrow> Seal k (wrap32 (int k)) \<in> set (run_trace n)"
  by (induction n) (auto simp: run_trace_Suc less_Suc_eq)

lemma take_run_trace: "m \<le> n \<Longrightarrow> take (3 * m) (run_trace n) = run_trace m"
proof (induction n)
  case 0
  then show ?case by (simp add: run_trace_def)
next
  case (Suc n)
  show ?case
  proof (cases "m \<le> n")
    case True
    then show ?thesis using Suc.IH by (simp add: run_trace_Suc)
  next
    case False
    then have "m = Suc n" using Suc.prems by simp
    then show ?thesis by simp
  qed
qed

lemma run_trace_end_before:
  assumes "Install_end k q \<in> set (take j (run_trace n))" and "j \<le> 3 * m" and "m \<le> n"
  shows "k < m"
proof -
  have "set (take j (run_trace n)) \<subseteq> set (take (3 * m) (run_trace n))"
    using assms(2) by (rule set_take_subset_set_take)
  then have "Install_end k q \<in> set (run_trace m)"
    using assms(1) take_run_trace[OF assms(3)] by auto
  then show ?thesis by (rule run_trace_end)
qed


text \<open>
  C6, as the claim has it, fails once \<open>logs.seq_nbr\<close> has passed \<open>INT_MAX\<close>. Let
  2147483649 transactions run one after the other. The first 2147483648 of them are
  stamped 0 up to \<open>INT_MAX = 2147483647\<close>, and the increment after the last of these
  stamps leaves \<open>logs.seq_nbr = INT_MIN\<close>; the one after them is sealed with
  \<open>lh.seq_nbr = - 2147483648\<close>. It is a committed transaction whose sequence number is
  below that of its predecessor, and its install ends (moment 6442450946 of the trace)
  after the install of the predecessor has begun (moment 6442450942), not before.
\<close>

theorem install_order_overflow:
  "reach ex_param (ex_idle 2147483649)
   \<and> Seal 2147483648 (- 2147483648) \<in> set (trace (ex_idle 2147483649))
   \<and> 6442450942 < length (trace (ex_idle 2147483649))
   \<and> trace (ex_idle 2147483649) ! 6442450942 = Install_begin 2147483647 2147483647
   \<and> (- 2147483648 :: int) < 2147483647
   \<and> trace (ex_idle 2147483649) ! 6442450946 = Install_end 2147483648 (- 2147483648)
   \<and> Install_end 2147483648 (- 2147483648)
        \<notin> set (take 6442450942 (trace (ex_idle 2147483649)))"
proof -
  have w: "wrap32 (int 2147483647) = 2147483647" "wrap32 (int 2147483648) = - 2147483648"
    by (simp_all add: wrap32_def)
  have tr: "trace (ex_idle 2147483649) = run_trace 2147483649" by (simp add: ex_idle_def)
  have a: "Seal 2147483648 (- 2147483648) \<in> set (trace (ex_idle 2147483649))"
    unfolding tr using run_trace_seal[of 2147483648 2147483649] by (simp only: w)
  have b: "6442450942 < length (trace (ex_idle 2147483649))"
    unfolding tr by (simp only: length_run_trace)
  have "run_trace 2147483649 ! (3 * 2147483647 + 1)
          = Install_begin 2147483647 (wrap32 (int 2147483647))"
    by (rule run_trace_begin) simp
  then have c: "trace (ex_idle 2147483649) ! 6442450942 = Install_begin 2147483647 2147483647"
    unfolding tr by (simp only: w) simp
  have "run_trace 2147483649 ! (3 * 2147483648 + 2)
          = Install_end 2147483648 (wrap32 (int 2147483648))"
    by (rule run_trace_end_nth) simp
  then have d: "trace (ex_idle 2147483649) ! 6442450946 = Install_end 2147483648 (- 2147483648)"
    unfolding tr by (simp only: w) simp
  have e: "Install_end 2147483648 (- 2147483648)
        \<notin> set (take 6442450942 (trace (ex_idle 2147483649)))"
  proof
    assume "Install_end 2147483648 (- 2147483648)
        \<in> set (take 6442450942 (trace (ex_idle 2147483649)))"
    then have "Install_end 2147483648 (- 2147483648)
        \<in> set (take 6442450942 (run_trace 2147483649))" by (simp only: tr)
    from run_trace_end_before[OF this, of 2147483648] show False by simp
  qed
  show ?thesis using ex_idle_reach[of 2147483649] a b c d e by (simp only: simp_thms)
qed

lemma boot_fields_slot_update:
  "length (logs (slot_update i f s)) = length (logs s) \<and> active (slot_update i f s) = active s
   \<and> copies_committed (slot_update i f s) = copies_committed s
   \<and> seq_nbr (slot_update i f s) = seq_nbr s"
  by (simp add: slot_update_def)

lemma boot_fields_read_head_loop:
  "length (logs (read_head_loop c i s)) = length (logs s) \<and> active (read_head_loop c i s) = active s
   \<and> copies_committed (read_head_loop c i s) = copies_committed s
   \<and> seq_nbr (read_head_loop c i s) = seq_nbr s"
proof (induction c i s rule: read_head_loop.induct)
  case (1 c lognum s)
  show ?case
  proof (cases "lognum < LOGCOPIES c")
    case True
    then show ?thesis using "1.IH"[OF True]
      by (subst (1 2 3 4) read_head_loop.simps)
         (simp add: read_head_slot_def Let_def boot_fields_slot_update)
  next
    case False
    then show ?thesis by (subst (1 2 3 4) read_head_loop.simps) simp
  qed
qed

lemma boot_fields_recover_loop:
  "length (logs (snd (recover_loop c i v s))) = length (logs s)
   \<and> active (snd (recover_loop c i v s)) = active s
   \<and> copies_committed (snd (recover_loop c i v s)) = copies_committed s
   \<and> seq_nbr (snd (recover_loop c i v s)) = seq_nbr s"
proof (induction c i v s rule: recover_loop.induct)
  case (1 c i visited s)
  show ?case
  proof (cases "i < LOGCOPIES c")
    case True
    let ?lognum = "i mod LOGCOPIES c"
    let ?s1 = "install_trans 1 ?lognum s"
    let ?s2 = "slot_update ?lognum (\<lambda>l. l\<lparr>lh := (lh l)\<lparr>lh_n := 0\<rparr>\<rparr>) ?s1"
    let ?s3 = "write_head ?lognum ?s2"
    have "ctl_eq s ?s1" by (simp add: install_trans_def ctl_eq_install_trans_loop)
    moreover have "ctl_eq ?s1 ?s2" by (rule ctl_eq_slot_update) simp_all
    moreover have "ctl_eq ?s2 ?s3" by (rule ctl_eq_write_head)
    ultimately have "ctl_eq s ?s3" by (meson ctl_eq_trans)
    then have f: "length (logs ?s3) = length (logs s)" "active ?s3 = active s"
        "copies_committed ?s3 = copies_committed s" "seq_nbr ?s3 = seq_nbr s"
      by (simp_all add: ctl_eq_def)
    have "recover_loop c i visited s = recover_loop c (i + 1) (visited @ [?lognum]) ?s3"
      using True by (subst recover_loop.simps) (simp add: Let_def)
    then show ?thesis using "1.IH"[OF True refl refl refl refl] f by simp
  next
    case False
    then show ?thesis by (subst (1 2 3 4) recover_loop.simps) simp
  qed
qed

lemma initlog_booted:
  assumes "initlog c junk dk d sb = Inr (v, k)"
  shows "booted c k"
proof -
  let ?sz = "int (nlog sb) div LOGCOPIES c"
  let ?mk = "\<lambda>i. (junk i)\<lparr>start := int (logstart sb) + (int i * ?sz), size_log := ?sz,
                                dev := d, lh := (lh (junk i))\<lparr>lh_seq_nbr := - 1\<rparr>\<rparr>"
  let ?s0 = "\<lparr>logs = map ?mk [0..<nat (LOGCOPIES c)], active = 0, copies_committed = 0,
              seq_nbr = 0, bcache = dk, disk = dk\<rparr>"
  have r: "recover_from_log c ?s0 = Inr (v, k)"
    using assms by (simp add: initlog_def Let_def split: if_splits)
  then have "\<exists>first. recover_loop c first [] (read_head c ?s0) = (v, k)"
    by (auto simp: recover_from_log_def Let_def split: sum.splits)
  then obtain first where "recover_loop c first [] (read_head c ?s0) = (v, k)" by blast
  then have "k = snd (recover_loop c first [] (read_head c ?s0))" by simp
  then show ?thesis
    using boot_fields_recover_loop[of c first "[]" "read_head c ?s0"]
      boot_fields_read_head_loop[of c 0 ?s0]
    by (simp add: booted_def read_head_def)
qed

end
